theory Spec2Isabelle
  imports Main "HOL-Library.Multiset"
begin

section \<open>JavaScript notions shared by the two emitters\<close>

text \<open>
  Arrays are objects: the store maps an address to the array's elements, so that two
  references to one array see each other's in-place updates (\<open>push\<close>), while
  \<open>filter\<close> and a spread literal allocate a new array.
\<close>

type_synonym addr = nat

text \<open>
  The errors of the source: \<open>LimitExceeded\<close> is the \<open>TypeError\<close>
  "Maximum listeners reached", \<open>Timeout\<close> the \<open>Error\<close> "Maximum timeout
  exceeded waiting for an event emission!", \<open>ListenerError\<close> whatever a listener
  of the application throws, \<open>StackOverflow\<close> the \<open>RangeError\<close> of an engine whose
  call stack is full.
\<close>

datatype error = LimitExceeded | Timeout | ListenerError nat | StackOverflow

text \<open>
  A listener is a function value, compared by reference (\<open>x != listener\<close>).
  \<open>Fn i\<close> is a function of the application, \<open>WaitCallback k p\<close> the closure
  \<open>callback\<close> that the \<open>p\<close>-th call of \<open>wait\<close> builds for the event \<open>k\<close>.
\<close>

datatype 'k listener = Fn nat | WaitCallback 'k nat

datatype 'r outcome = Returned 'r | Thrown error

datatype 'x promise_state = Pending | Fulfilled 'x | Rejected error

text \<open>
  What a listener returns: a plain value, or an awaitable that settles at some later
  tick (or never). A value is \<open>'v option\<close>, \<open>None\<close> being \<open>undefined\<close>.
\<close>

datatype 'v settle = Resolves nat 'v | Rejects nat error | Hangs

datatype 'v retval = Plain 'v | Awaitable "'v settle"

fun settled :: "'v retval \<Rightarrow> 'v option" where
  "settled (Plain v) = Some v"
| "settled (Awaitable (Resolves t v)) = Some v"
| "settled (Awaitable (Rejects t e)) = None"
| "settled (Awaitable Hangs) = None"

fun rejections :: "'v retval list \<Rightarrow> (nat \<times> error) list" where
  "rejections [] = []"
| "rejections (Awaitable (Rejects t e) # rs) = (t, e) # rejections rs"
| "rejections (r # rs) = rejections rs"

fun earliest :: "nat \<times> error \<Rightarrow> (nat \<times> error) list \<Rightarrow> error" where
  "earliest (t, e) [] = e"
| "earliest (t, e) ((t', e') # xs) = (if t' < t then earliest (t', e') xs else earliest (t, e) xs)"

fun await_all :: "'v retval list \<Rightarrow> 'v list option" where
  "await_all [] = Some []"
| "await_all (r # rs) =
     (case settled r of None \<Rightarrow> None | Some v \<Rightarrow> map_option ((#) v) (await_all rs))"

text \<open>
  \<open>Promise.all\<close>: rejected with the first rejection in time; otherwise fulfilled
  with the values in the order of the input once every element is; pending as long as
  one element hangs.
\<close>

definition promise_all :: "'v retval list \<Rightarrow> 'v list promise_state" where
  "promise_all rs =
     (case rejections rs of
        x # xs \<Rightarrow> Rejected (earliest x xs)
      | [] \<Rightarrow> (case await_all rs of Some vs \<Rightarrow> Fulfilled vs | None \<Rightarrow> Pending))"

text \<open>JavaScript truthiness of a number that may be \<open>undefined\<close> or \<open>NaN\<close>
  (\<open>None\<close>), and \<open>a > b\<close>, which is false when \<open>b\<close> is \<open>NaN\<close>.\<close>

definition truthy :: "int option \<Rightarrow> bool" where
  "truthy m = (case m of None \<Rightarrow> False | Some n \<Rightarrow> n \<noteq> 0)"

definition js_gt :: "int \<Rightarrow> int option \<Rightarrow> bool" where
  "js_gt a m = (case m of None \<Rightarrow> False | Some b \<Rightarrow> a > b)"

definition js_lt :: "int option \<Rightarrow> int \<Rightarrow> bool" where
  "js_lt m b = (case m of None \<Rightarrow> False | Some a \<Rightarrow> a < b)"

section \<open>The calls of the application\<close>

text \<open>
  What the application can do with an emitter it holds, from inside a listener or
  elsewhere: call its methods, among them \<open>emit\<close> and \<open>emitSync\<close>
  (re-entrantly when called from a listener), write \<open>maxListeners\<close>, call a
  listener function it finds in the array of \<open>getListeners\<close>, and update that
  array in place (\<open>push\<close>, \<open>pop\<close>, \<open>splice\<close>, \<open>length = 0\<close>: the
  array at an address gets new contents).
\<close>

datatype ('k, 'a) call =
    CallAddListener 'k "'k listener list"
  | CallRemoveListener 'k "'k listener"
  | CallRemoveListeners 'k
  | CallClear
  | CallWait 'k "nat option"
  | CallGetListeners 'k
  | CallListenerCount 'k
  | CallSetMaxListeners 'k "int option"
  | CallEmit 'k "'a list"
  | CallEmitSync 'k "'a list"
  | CallListener "'k listener" "'a list"
  | CallArrayWrite addr "'k listener list"

text \<open>The calls that run listeners: the two dispatches, and a direct call of one listener.\<close>

datatype ('k, 'a) reentrant =
    NestedEmit 'k "'a list"
  | NestedEmitSync 'k "'a list"
  | NestedCall "'k listener" "'a list"

text \<open>What a call gives back to the code that made it: an exception, nothing of
  interest, or the value the method returns.\<close>

datatype 'v reply =
    Threw error
  | Done
  | GotCount nat
  | GotArray addr
  | GotWait nat
  | GotResult "'v option retval"
  | GotResults "'v option retval list"
  | GotPromise "'v option list promise_state"

section \<open>EventEmitter\<close>

text \<open>
  The fields \<open>#events\<close> and \<open>#maxListeners\<close>, the store of the arrays, the
  promises and \<open>fullfilled\<close> flags of the calls of \<open>wait\<close>, the timers that
  \<open>setTimeout\<close> has scheduled (the wait's number and its delay), the errors thrown
  out of a timer callback (nobody catches them), and the trace of listener calls.
\<close>

record ('k, 'a) emitter =
  heap :: "addr \<Rightarrow> 'k listener list"
  nxt :: addr
  events :: "'k \<rightharpoonup> addr"
  maxListeners :: "'k \<rightharpoonup> int"
  promises :: "nat \<Rightarrow> 'a list promise_state"
  fullfilled :: "nat \<Rightarrow> bool"
  nwaits :: nat
  timers :: "(nat \<times> nat) list"
  uncaught :: "error list"
  invoked :: "('k listener \<times> 'a list) list"

definition new_emitter :: "('k, 'a) emitter" where
  "new_emitter =
     \<lparr>heap = (\<lambda>_. []), nxt = 0, events = Map.empty, maxListeners = Map.empty,
      promises = (\<lambda>_. Pending), fullfilled = (\<lambda>_. False), nwaits = 0, timers = [],
      uncaught = [], invoked = []\<rparr>"

definition alloc :: "'k listener list \<Rightarrow> ('k, 'a) emitter \<Rightarrow> addr \<times> ('k, 'a) emitter" where
  "alloc xs s = (nxt s, s\<lparr>heap := (heap s)(nxt s := xs), nxt := Suc (nxt s)\<rparr>)"

text \<open>\<open>getListeners\<close>: \<open>this.#events.get(event) || []\<close>, the stored array itself
  when there is one, else a new empty array.\<close>

definition getListeners :: "'k \<Rightarrow> ('k, 'a) emitter \<Rightarrow> addr \<times> ('k, 'a) emitter" where
  "getListeners k s = (case events s k of Some a \<Rightarrow> (a, s) | None \<Rightarrow> alloc [] s)"

text \<open>\<open>listenerCount\<close> is the length of what \<open>getListeners\<close> returns; the empty
  array that \<open>getListeners\<close> may have made for it is dropped at once.\<close>

definition listenerCount :: "('k, 'a) emitter \<Rightarrow> 'k \<Rightarrow> nat" where
  "listenerCount s k = (case getListeners k s of (a, s') \<Rightarrow> length (heap s' a))"

text \<open>\<open>this.#maxListeners.get(event) + 1\<close>: \<open>NaN\<close> when no limit is stored.\<close>

definition maxCount :: "('k, 'a) emitter \<Rightarrow> 'k \<Rightarrow> int option" where
  "maxCount s k = map_option (\<lambda>n. n + 1) (maxListeners s k)"

text \<open>
  \<open>addListener\<close>: the check reads \<open>listenerCount(event) + 1\<close>, whatever the number
  of listeners passed. The array stored is a new one: \<open>[...listeners, ...evt]\<close>, or,
  without an entry, the array of the rest parameter, which every call makes anew.
\<close>

definition addListener ::
  "'k \<Rightarrow> 'k listener list \<Rightarrow> ('k, 'a) emitter \<Rightarrow> error + ('k, 'a) emitter" where
  "addListener k ls s =
     (if truthy (maxCount s k) \<and> js_gt (int (listenerCount s k) + 1) (maxCount s k)
      then Inl LimitExceeded
      else (case alloc (case events s k of Some e \<Rightarrow> ls @ heap s e | None \<Rightarrow> ls) s of
              (a, s') \<Rightarrow> Inr (s'\<lparr>events := (events s')(k \<mapsto> a)\<rparr>)))"

definition on :: "'k \<Rightarrow> 'k listener list \<Rightarrow> ('k, 'a) emitter \<Rightarrow> error + ('k, 'a) emitter" where
  "on k ls s = addListener k ls s"

definition removeListener :: "'k \<Rightarrow> 'k listener \<Rightarrow> ('k, 'a) emitter \<Rightarrow> ('k, 'a) emitter" where
  "removeListener k l s =
     (case alloc (case events s k of Some e \<Rightarrow> filter (\<lambda>x. x \<noteq> l) (heap s e) | None \<Rightarrow> []) s of
        (a, s') \<Rightarrow> s'\<lparr>events := (events s')(k \<mapsto> a)\<rparr>)"

definition removeListeners :: "'k \<Rightarrow> ('k, 'a) emitter \<Rightarrow> ('k, 'a) emitter" where
  "removeListeners k s = s\<lparr>events := (events s)(k := None)\<rparr>"

definition clear :: "('k, 'a) emitter \<Rightarrow> ('k, 'a) emitter" where
  "clear s = s\<lparr>events := Map.empty\<rparr>"

text \<open>\<open>resolve(args)\<close> settles a promise that is still pending and is ignored
  otherwise.\<close>

definition resolve :: "nat \<Rightarrow> 'a list \<Rightarrow> ('k, 'a) emitter \<Rightarrow> ('k, 'a) emitter" where
  "resolve p args s =
     (if promises s p = Pending then s\<lparr>promises := (promises s)(p := Fulfilled args)\<rparr> else s)"

text \<open>The closure \<open>callback\<close> of \<open>wait\<close>.\<close>

definition wait_callback :: "'k \<Rightarrow> nat \<Rightarrow> 'a list \<Rightarrow> ('k, 'a) emitter \<Rightarrow> ('k, 'a) emitter" where
  "wait_callback k p args s =
     (let s1 = removeListener k (WaitCallback k p) s;
          s2 = resolve p args s1
      in s2\<lparr>fullfilled := (fullfilled s2)(p := True)\<rparr>)"

text \<open>
  \<open>wait\<close>: the executor of the new promise registers the callback and, when
  \<open>timeout\<close> is truthy, schedules the timer. An exception of the executor
  (\<open>addListener\<close> throwing) rejects the promise.
\<close>

definition wait :: "'k \<Rightarrow> nat option \<Rightarrow> ('k, 'a) emitter \<Rightarrow> nat \<times> ('k, 'a) emitter" where
  "wait k timeout s =
     (let p = nwaits s;
          s1 = s\<lparr>promises := (promises s)(p := Pending),
                 fullfilled := (fullfilled s)(p := False),
                 nwaits := Suc p\<rparr>
      in case addListener k [WaitCallback k p] s1 of
           Inl e \<Rightarrow> (p, s1\<lparr>promises := (promises s1)(p := Rejected e)\<rparr>)
         | Inr s2 \<Rightarrow>
             (p, case timeout of
                   Some t \<Rightarrow> if t \<noteq> 0 then s2\<lparr>timers := timers s2 @ [(p, t)]\<rparr> else s2
                 | None \<Rightarrow> s2))"

text \<open>The timer callback: \<open>if(!fullfilled) throw new Error(...)\<close>, run by the event
  loop, so that the exception reaches no caller.\<close>

definition timer_callback :: "nat \<Rightarrow> ('k, 'a) emitter \<Rightarrow> ('k, 'a) emitter" where
  "timer_callback p s = (if \<not> fullfilled s p then s\<lparr>uncaught := uncaught s @ [Timeout]\<rparr> else s)"

text \<open>The event loop runs the timer of the wait \<open>p\<close>, if one is scheduled.\<close>

definition timer_fires :: "nat \<Rightarrow> ('k, 'a) emitter \<Rightarrow> ('k, 'a) emitter" where
  "timer_fires p s =
     (if p \<in> fst ` set (timers s)
      then timer_callback p (s\<lparr>timers := filter (\<lambda>t. fst t \<noteq> p) (timers s)\<rparr>)
      else s)"

section \<open>The listeners of the application\<close>

text \<open>
  A listener of the application is a parameter of the model. Its body is a program
  that either returns a value or throws (\<open>Return\<close>), or makes a call on the emitter
  and goes on as the continuation says, which sees what the call gave back and the
  state the call left (\<open>Step\<close>): the listener can branch on what it reads and on
  what its calls return, and catch what a call throws.
\<close>

datatype ('k, 'a, 'v) prog =
    Return "'v option retval outcome"
  | Step "('k, 'a) call" "'v reply \<Rightarrow> ('k, 'a) emitter \<Rightarrow> ('k, 'a, 'v) prog"

text \<open>
  The application: the program of each listener function, given the arguments of the
  call, and the depth of nested listener calls that the engine's call stack admits
  (a call beyond it throws \<open>RangeError\<close>).
\<close>

record ('k, 'a, 'v) env =
  listener_prog :: "nat \<Rightarrow> 'a list \<Rightarrow> ('k, 'a, 'v) prog"
  stack_limit :: nat

text \<open>A straight-line body: the calls in turn, the first exception thrown on, then
  the result.\<close>

fun straight :: "('k, 'a) call list \<Rightarrow> 'v option retval outcome \<Rightarrow> ('k, 'a, 'v) prog" where
  "straight [] out = Return out"
| "straight (c # cs) out =
     Step c (\<lambda>r s. case r of Threw err \<Rightarrow> Return (Thrown err) | _ \<Rightarrow> straight cs out)"

text \<open>
  One call of the application. \<open>sub\<close> runs the calls that run listeners; it is the
  emitter itself one level deeper in the call stack (\<open>nested\<close> below).
\<close>

fun perform ::
  "(('k, 'a) reentrant \<Rightarrow> ('k, 'a) emitter \<Rightarrow> 'v reply \<times> ('k, 'a) emitter)
     \<Rightarrow> ('k, 'a) call \<Rightarrow> ('k, 'a) emitter \<Rightarrow> 'v reply \<times> ('k, 'a) emitter" where
  "perform sub (CallAddListener k ls) s =
     (case addListener k ls s of Inl e \<Rightarrow> (Threw e, s) | Inr s' \<Rightarrow> (Done, s'))"
| "perform sub (CallRemoveListener k l) s = (Done, removeListener k l s)"
| "perform sub (CallRemoveListeners k) s = (Done, removeListeners k s)"
| "perform sub CallClear s = (Done, clear s)"
| "perform sub (CallWait k t) s = (GotWait (fst (wait k t s)), snd (wait k t s))"
| "perform sub (CallGetListeners k) s = (GotArray (fst (getListeners k s)), snd (getListeners k s))"
| "perform sub (CallListenerCount k) s = (GotCount (listenerCount s k), s)"
| "perform sub (CallSetMaxListeners k v) s = (Done, s\<lparr>maxListeners := (maxListeners s)(k := v)\<rparr>)"
| "perform sub (CallEmit k args) s = sub (NestedEmit k args) s"
| "perform sub (CallEmitSync k args) s = sub (NestedEmitSync k args) s"
| "perform sub (CallListener l args) s = sub (NestedCall l args) s"
| "perform sub (CallArrayWrite a xs) s = (Done, s\<lparr>heap := (heap s)(a := xs)\<rparr>)"

primrec run_prog ::
  "(('k, 'a) reentrant \<Rightarrow> ('k, 'a) emitter \<Rightarrow> 'v reply \<times> ('k, 'a) emitter)
     \<Rightarrow> ('k, 'a, 'v) prog \<Rightarrow> ('k, 'a) emitter \<Rightarrow> 'v option retval outcome \<times> ('k, 'a) emitter" where
  "run_prog sub (Return r) = (\<lambda>s. (r, s))"
| "run_prog sub (Step c f) =
     (\<lambda>s. case perform sub c s of (r, s') \<Rightarrow> run_prog sub (f r s') s')"

text \<open>Calling a listener \<open>x(...args)\<close>.\<close>

definition invoke ::
  "(('k, 'a) reentrant \<Rightarrow> ('k, 'a) emitter \<Rightarrow> 'v reply \<times> ('k, 'a) emitter)
     \<Rightarrow> ('k, 'a, 'v) env \<Rightarrow> 'k listener \<Rightarrow> 'a list \<Rightarrow> ('k, 'a) emitter
     \<Rightarrow> 'v option retval outcome \<times> ('k, 'a) emitter" where
  "invoke sub env l args s =
     (let s0 = s\<lparr>invoked := invoked s @ [(l, args)]\<rparr>
      in case l of
           WaitCallback k p \<Rightarrow> (Returned (Plain None), wait_callback k p args s0)
         | Fn f \<Rightarrow> run_prog sub (listener_prog env f args) s0)"

text \<open>
  \<open>Array.prototype.map\<close> on the array at \<open>a\<close>: the length is read once, before
  the first call; each element is read from the array when its turn comes, and an index
  the array no longer has is skipped (its slot in the result stays empty and reads as
  \<open>undefined\<close>). \<open>n\<close> counts the indices still to visit, \<open>i\<close> is the index.
\<close>

fun array_map ::
  "(('k, 'a) reentrant \<Rightarrow> ('k, 'a) emitter \<Rightarrow> 'v reply \<times> ('k, 'a) emitter)
     \<Rightarrow> ('k, 'a, 'v) env \<Rightarrow> addr \<Rightarrow> 'a list \<Rightarrow> nat \<Rightarrow> nat \<Rightarrow> 'v option retval list
     \<Rightarrow> ('k, 'a) emitter \<Rightarrow> 'v option retval list outcome \<times> ('k, 'a) emitter" where
  "array_map sub env a args 0 i acc s = (Returned acc, s)"
| "array_map sub env a args (Suc n) i acc s =
     (if i < length (heap s a)
      then (case invoke sub env (heap s a ! i) args s of
              (Thrown e, s') \<Rightarrow> (Thrown e, s')
            | (Returned r, s') \<Rightarrow> array_map sub env a args n (Suc i) (acc @ [r]) s')
      else array_map sub env a args n (Suc i) (acc @ [Plain None]) s)"

text \<open>\<open>this.#events.get(event)?.map(x => x(...args)) || []\<close>, the expression of both
  \<open>emitSync\<close> and \<open>emit\<close>.\<close>

definition map_listeners ::
  "(('k, 'a) reentrant \<Rightarrow> ('k, 'a) emitter \<Rightarrow> 'v reply \<times> ('k, 'a) emitter)
     \<Rightarrow> ('k, 'a, 'v) env \<Rightarrow> 'k \<Rightarrow> 'a list \<Rightarrow> ('k, 'a) emitter
     \<Rightarrow> 'v option retval list outcome \<times> ('k, 'a) emitter" where
  "map_listeners sub env k args s =
     (case events s k of
        Some a \<Rightarrow> array_map sub env a args (length (heap s a)) 0 [] s
      | None \<Rightarrow> (Returned [], s))"

text \<open>
  The emitter as a listener's calls reach it, with room for \<open>d\<close> more levels of
  nested listener calls: at the bottom of the stack the call throws.
\<close>

primrec nested ::
  "nat \<Rightarrow> ('k, 'a, 'v) env \<Rightarrow> ('k, 'a) reentrant \<Rightarrow> ('k, 'a) emitter
     \<Rightarrow> 'v reply \<times> ('k, 'a) emitter" where
  "nested 0 env = (\<lambda>c s. (Threw StackOverflow, s))"
| "nested (Suc d) env =
     (\<lambda>c s. case c of
        NestedEmit k args \<Rightarrow>
          (case map_listeners (nested d env) env k args s of
             (Thrown e, s') \<Rightarrow> (Threw e, s')
           | (Returned rs, s') \<Rightarrow> (GotPromise (promise_all rs), s'))
      | NestedEmitSync k args \<Rightarrow>
          (case map_listeners (nested d env) env k args s of
             (Thrown e, s') \<Rightarrow> (Threw e, s')
           | (Returned rs, s') \<Rightarrow> (GotResults rs, s'))
      | NestedCall l args \<Rightarrow>
          (case invoke (nested d env) env l args s of
             (Thrown e, s') \<Rightarrow> (Threw e, s')
           | (Returned r, s') \<Rightarrow> (GotResult r, s')))"

text \<open>A call of a listener, and the two dispatches, as the application makes them from
  outside any listener.\<close>

definition call_listener ::
  "('k, 'a, 'v) env \<Rightarrow> 'k listener \<Rightarrow> 'a list \<Rightarrow> ('k, 'a) emitter
     \<Rightarrow> 'v option retval outcome \<times> ('k, 'a) emitter" where
  "call_listener env l args s = invoke (nested (stack_limit env) env) env l args s"

definition emitSync ::
  "('k, 'a, 'v) env \<Rightarrow> 'k \<Rightarrow> 'a list \<Rightarrow> ('k, 'a) emitter
     \<Rightarrow> 'v option retval list outcome \<times> ('k, 'a) emitter" where
  "emitSync env k args s = map_listeners (nested (stack_limit env) env) env k args s"

text \<open>\<open>emit\<close> maps like \<open>emitSync\<close> and hands the array to \<open>Promise.all\<close>; an
  exception of a listener leaves \<open>emit\<close> before any promise exists.\<close>

definition emit ::
  "('k, 'a, 'v) env \<Rightarrow> 'k \<Rightarrow> 'a list \<Rightarrow> ('k, 'a) emitter
     \<Rightarrow> 'v option list promise_state outcome \<times> ('k, 'a) emitter" where
  "emit env k args s =
     (case map_listeners (nested (stack_limit env) env) env k args s of
        (Thrown e, s') \<Rightarrow> (Thrown e, s')
      | (Returned rs, s') \<Rightarrow> (Returned (promise_all rs), s'))"

text \<open>A caller that holds the array returned by \<open>getListeners\<close> and calls \<open>push\<close>
  or \<open>pop\<close> on it.\<close>

definition array_push :: "addr \<Rightarrow> 'k listener \<Rightarrow> ('k, 'a) emitter \<Rightarrow> ('k, 'a) emitter" where
  "array_push a x s = s\<lparr>heap := (heap s)(a := heap s a @ [x])\<rparr>"

definition array_pop :: "addr \<Rightarrow> ('k, 'a) emitter \<Rightarrow> ('k, 'a) emitter" where
  "array_pop a s = s\<lparr>heap := (heap s)(a := butlast (heap s a))\<rparr>"

section \<open>MonoEmitter\<close>

datatype mono_listener = MonoFn nat | MonoWaitCallback nat

datatype 'a mono_call =
    MonoCallAddListener "mono_listener list"
  | MonoCallRemoveListener mono_listener
  | MonoCallClear
  | MonoCallWait "nat option"
  | MonoCallGetListeners
  | MonoCallListenersCount
  | MonoCallSetMaxListeners "int option"
  | MonoCallEmit "'a list"
  | MonoCallEmitSync "'a list"
  | MonoCallListener mono_listener "'a list"
  | MonoCallArrayWrite addr "mono_listener list"

datatype 'a mono_reentrant =
    MonoNestedEmit "'a list"
  | MonoNestedEmitSync "'a list"
  | MonoNestedCall mono_listener "'a list"

text \<open>
  The field \<open>#listeners\<close> holds a reference to an array of the store;
  \<open>maxListenersCount\<close> is \<open>None\<close> while undefined. The other fields are as for
  the EventEmitter.
\<close>

record 'a mono =
  m_heap :: "addr \<Rightarrow> mono_listener list"
  m_nxt :: addr
  listeners :: addr
  maxListenersCount :: "int option"
  m_promises :: "nat \<Rightarrow> 'a list promise_state"
  m_fullfilled :: "nat \<Rightarrow> bool"
  m_nwaits :: nat
  m_timers :: "(nat \<times> nat) list"
  m_uncaught :: "error list"
  m_invoked :: "(mono_listener \<times> 'a list) list"

definition new_mono :: "'a mono" where
  "new_mono =
     \<lparr>m_heap = (\<lambda>_. []), m_nxt = 1, listeners = 0, maxListenersCount = None,
      m_promises = (\<lambda>_. Pending), m_fullfilled = (\<lambda>_. False), m_nwaits = 0, m_timers = [],
      m_uncaught = [], m_invoked = []\<rparr>"

definition mono_alloc :: "mono_listener list \<Rightarrow> 'a mono \<Rightarrow> addr \<times> 'a mono" where
  "mono_alloc xs s = (m_nxt s, s\<lparr>m_heap := (m_heap s)(m_nxt s := xs), m_nxt := Suc (m_nxt s)\<rparr>)"

text \<open>The getter \<open>listeners\<close> returns \<open>this.#listeners\<close>, which is the field
  \<open>listeners\<close> of the record; \<open>listenersCount\<close> is its length.\<close>

definition listenersCount :: "'a mono \<Rightarrow> nat" where
  "listenersCount s = length (m_heap s (listeners s))"

definition mono_addListener :: "mono_listener list \<Rightarrow> 'a mono \<Rightarrow> error + 'a mono" where
  "mono_addListener ls s =
     (if truthy (maxListenersCount s) \<and> js_lt (maxListenersCount s) (int (listenersCount s) + 1)
      then Inl LimitExceeded
      else Inr (s\<lparr>m_heap := (m_heap s)(listeners s := m_heap s (listeners s) @ ls)\<rparr>))"

definition mono_on :: "mono_listener list \<Rightarrow> 'a mono \<Rightarrow> error + 'a mono" where
  "mono_on ls s = mono_addListener ls s"

definition mono_removeListener :: "mono_listener \<Rightarrow> 'a mono \<Rightarrow> 'a mono" where
  "mono_removeListener l s =
     (case mono_alloc (filter (\<lambda>x. x \<noteq> l) (m_heap s (listeners s))) s of
        (a, s') \<Rightarrow> s'\<lparr>listeners := a\<rparr>)"

definition mono_clear :: "'a mono \<Rightarrow> 'a mono" where
  "mono_clear s = (case mono_alloc [] s of (a, s') \<Rightarrow> s'\<lparr>listeners := a\<rparr>)"

definition mono_resolve :: "nat \<Rightarrow> 'a list \<Rightarrow> 'a mono \<Rightarrow> 'a mono" where
  "mono_resolve p args s =
     (if m_promises s p = Pending then s\<lparr>m_promises := (m_promises s)(p := Fulfilled args)\<rparr>
      else s)"

definition mono_wait_callback :: "nat \<Rightarrow> 'a list \<Rightarrow> 'a mono \<Rightarrow> 'a mono" where
  "mono_wait_callback p args s =
     (let s1 = (case mono_alloc (filter (\<lambda>x. x \<noteq> MonoWaitCallback p) (m_heap s (listeners s))) s of
                  (a, s') \<Rightarrow> s'\<lparr>listeners := a\<rparr>);
          s2 = mono_resolve p args s1
      in s2\<lparr>m_fullfilled := (m_fullfilled s2)(p := True)\<rparr>)"

text \<open>\<open>wait\<close> pushes the callback on the array itself, without the check of
  \<open>addListener\<close>.\<close>

definition mono_wait :: "nat option \<Rightarrow> 'a mono \<Rightarrow> nat \<times> 'a mono" where
  "mono_wait timeout s =
     (let p = m_nwaits s;
          s1 = s\<lparr>m_promises := (m_promises s)(p := Pending),
                 m_fullfilled := (m_fullfilled s)(p := False),
                 m_nwaits := Suc p\<rparr>;
          s2 = s1\<lparr>m_heap := (m_heap s1)(listeners s1 := m_heap s1 (listeners s1) @ [MonoWaitCallback p])\<rparr>
      in (p, case timeout of
               Some t \<Rightarrow> if t \<noteq> 0 then s2\<lparr>m_timers := m_timers s2 @ [(p, t)]\<rparr> else s2
             | None \<Rightarrow> s2))"

definition mono_timer_callback :: "nat \<Rightarrow> 'a mono \<Rightarrow> 'a mono" where
  "mono_timer_callback p s =
     (if \<not> m_fullfilled s p then s\<lparr>m_uncaught := m_uncaught s @ [Timeout]\<rparr> else s)"

definition mono_timer_fires :: "nat \<Rightarrow> 'a mono \<Rightarrow> 'a mono" where
  "mono_timer_fires p s =
     (if p \<in> fst ` set (m_timers s)
      then mono_timer_callback p (s\<lparr>m_timers := filter (\<lambda>t. fst t \<noteq> p) (m_timers s)\<rparr>)
      else s)"

datatype ('a, 'v) mono_prog =
    MonoReturn "'v option retval outcome"
  | MonoStep "'a mono_call" "'v reply \<Rightarrow> 'a mono \<Rightarrow> ('a, 'v) mono_prog"

record ('a, 'v) mono_env =
  mono_listener_prog :: "nat \<Rightarrow> 'a list \<Rightarrow> ('a, 'v) mono_prog"
  mono_stack_limit :: nat

fun mono_straight :: "'a mono_call list \<Rightarrow> 'v option retval outcome \<Rightarrow> ('a, 'v) mono_prog" where
  "mono_straight [] out = MonoReturn out"
| "mono_straight (c # cs) out =
     MonoStep c
       (\<lambda>r s. case r of Threw err \<Rightarrow> MonoReturn (Thrown err) | _ \<Rightarrow> mono_straight cs out)"

fun mono_perform ::
  "('a mono_reentrant \<Rightarrow> 'a mono \<Rightarrow> 'v reply \<times> 'a mono)
     \<Rightarrow> 'a mono_call \<Rightarrow> 'a mono \<Rightarrow> 'v reply \<times> 'a mono" where
  "mono_perform sub (MonoCallAddListener ls) s =
     (case mono_addListener ls s of Inl e \<Rightarrow> (Threw e, s) | Inr s' \<Rightarrow> (Done, s'))"
| "mono_perform sub (MonoCallRemoveListener l) s = (Done, mono_removeListener l s)"
| "mono_perform sub MonoCallClear s = (Done, mono_clear s)"
| "mono_perform sub (MonoCallWait t) s = (GotWait (fst (mono_wait t s)), snd (mono_wait t s))"
| "mono_perform sub MonoCallGetListeners s = (GotArray (listeners s), s)"
| "mono_perform sub MonoCallListenersCount s = (GotCount (listenersCount s), s)"
| "mono_perform sub (MonoCallSetMaxListeners v) s = (Done, s\<lparr>maxListenersCount := v\<rparr>)"
| "mono_perform sub (MonoCallEmit args) s = sub (MonoNestedEmit args) s"
| "mono_perform sub (MonoCallEmitSync args) s = sub (MonoNestedEmitSync args) s"
| "mono_perform sub (MonoCallListener l args) s = sub (MonoNestedCall l args) s"
| "mono_perform sub (MonoCallArrayWrite a xs) s = (Done, s\<lparr>m_heap := (m_heap s)(a := xs)\<rparr>)"

primrec mono_run_prog ::
  "('a mono_reentrant \<Rightarrow> 'a mono \<Rightarrow> 'v reply \<times> 'a mono)
     \<Rightarrow> ('a, 'v) mono_prog \<Rightarrow> 'a mono \<Rightarrow> 'v option retval outcome \<times> 'a mono" where
  "mono_run_prog sub (MonoReturn r) = (\<lambda>s. (r, s))"
| "mono_run_prog sub (MonoStep c f) =
     (\<lambda>s. case mono_perform sub c s of (r, s') \<Rightarrow> mono_run_prog sub (f r s') s')"

definition mono_invoke ::
  "('a mono_reentrant \<Rightarrow> 'a mono \<Rightarrow> 'v reply \<times> 'a mono)
     \<Rightarrow> ('a, 'v) mono_env \<Rightarrow> mono_listener \<Rightarrow> 'a list \<Rightarrow> 'a mono
     \<Rightarrow> 'v option retval outcome \<times> 'a mono" where
  "mono_invoke sub env l args s =
     (let s0 = s\<lparr>m_invoked := m_invoked s @ [(l, args)]\<rparr>
      in case l of
           MonoWaitCallback p \<Rightarrow> (Returned (Plain None), mono_wait_callback p args s0)
         | MonoFn f \<Rightarrow> mono_run_prog sub (mono_listener_prog env f args) s0)"

fun mono_array_map ::
  "('a mono_reentrant \<Rightarrow> 'a mono \<Rightarrow> 'v reply \<times> 'a mono)
     \<Rightarrow> ('a, 'v) mono_env \<Rightarrow> addr \<Rightarrow> 'a list \<Rightarrow> nat \<Rightarrow> nat \<Rightarrow> 'v option retval list
     \<Rightarrow> 'a mono \<Rightarrow> 'v option retval list outcome \<times> 'a mono" where
  "mono_array_map sub env a args 0 i acc s = (Returned acc, s)"
| "mono_array_map sub env a args (Suc n) i acc s =
     (if i < length (m_heap s a)
      then (case mono_invoke sub env (m_heap s a ! i) args s of
              (Thrown e, s') \<Rightarrow> (Thrown e, s')
            | (Returned r, s') \<Rightarrow> mono_array_map sub env a args n (Suc i) (acc @ [r]) s')
      else mono_array_map sub env a args n (Suc i) (acc @ [Plain None]) s)"

text \<open>\<open>this.#listeners.map(x => x(...args))\<close>.\<close>

definition mono_map_listeners ::
  "('a mono_reentrant \<Rightarrow> 'a mono \<Rightarrow> 'v reply \<times> 'a mono)
     \<Rightarrow> ('a, 'v) mono_env \<Rightarrow> 'a list \<Rightarrow> 'a mono \<Rightarrow> 'v option retval list outcome \<times> 'a mono" where
  "mono_map_listeners sub env args s =
     mono_array_map sub env (listeners s) args (length (m_heap s (listeners s))) 0 [] s"

primrec mono_nested ::
  "nat \<Rightarrow> ('a, 'v) mono_env \<Rightarrow> 'a mono_reentrant \<Rightarrow> 'a mono \<Rightarrow> 'v reply \<times> 'a mono" where
  "mono_nested 0 env = (\<lambda>c s. (Threw StackOverflow, s))"
| "mono_nested (Suc d) env =
     (\<lambda>c s. case c of
        MonoNestedEmit args \<Rightarrow>
          (case mono_map_listeners (mono_nested d env) env args s of
             (Thrown e, s') \<Rightarrow> (Threw e, s')
           | (Returned rs, s') \<Rightarrow> (GotPromise (promise_all rs), s'))
      | MonoNestedEmitSync args \<Rightarrow>
          (case mono_map_listeners (mono_nested d env) env args s of
             (Thrown e, s') \<Rightarrow> (Threw e, s')
           | (Returned rs, s') \<Rightarrow> (GotResults rs, s'))
      | MonoNestedCall l args \<Rightarrow>
          (case mono_invoke (mono_nested d env) env l args s of
             (Thrown e, s') \<Rightarrow> (Threw e, s')
           | (Returned r, s') \<Rightarrow> (GotResult r, s')))"

definition mono_call_listener ::
  "('a, 'v) mono_env \<Rightarrow> mono_listener \<Rightarrow> 'a list \<Rightarrow> 'a mono
     \<Rightarrow> 'v option retval outcome \<times> 'a mono" where
  "mono_call_listener env l args s =
     mono_invoke (mono_nested (mono_stack_limit env) env) env l args s"

definition mono_emitSync ::
  "('a, 'v) mono_env \<Rightarrow> 'a list \<Rightarrow> 'a mono \<Rightarrow> 'v option retval list outcome \<times> 'a mono" where
  "mono_emitSync env args s =
     mono_map_listeners (mono_nested (mono_stack_limit env) env) env args s"

definition mono_emit ::
  "('a, 'v) mono_env \<Rightarrow> 'a list \<Rightarrow> 'a mono \<Rightarrow> 'v option list promise_state outcome \<times> 'a mono" where
  "mono_emit env args s =
     (case mono_map_listeners (mono_nested (mono_stack_limit env) env) env args s of
        (Thrown e, s') \<Rightarrow> (Thrown e, s')
      | (Returned rs, s') \<Rightarrow> (Returned (promise_all rs), s'))"

definition mono_array_push :: "addr \<Rightarrow> mono_listener \<Rightarrow> 'a mono \<Rightarrow> 'a mono" where
  "mono_array_push a x s = s\<lparr>m_heap := (m_heap s)(a := m_heap s a @ [x])\<rparr>"

section \<open>Observations and sequences of operations\<close>

text \<open>The listeners of an event, in the order of the array (what \<open>getListeners\<close>
  shows), and the listeners of the mono emitter.\<close>

definition listener_list :: "('k, 'a) emitter \<Rightarrow> 'k \<Rightarrow> 'k listener list" where
  "listener_list s k = (case getListeners k s of (a, s') \<Rightarrow> heap s' a)"

definition mono_list :: "'a mono \<Rightarrow> mono_listener list" where
  "mono_list s = m_heap s (listeners s)"

text \<open>Every reference the emitter holds is an allocated address. A new emitter is
  well formed, and every call keeps an emitter so.\<close>

definition well_formed :: "('k, 'a) emitter \<Rightarrow> bool" where
  "well_formed s = (\<forall>k a. events s k = Some a \<longrightarrow> a < nxt s)"

definition mono_well_formed :: "'a mono \<Rightarrow> bool" where
  "mono_well_formed s = (listeners s < m_nxt s)"

text \<open>Sequences of \<open>addListener\<close> and \<open>removeListener\<close> calls; the first
  exception ends the run.\<close>

datatype 'k reg_op = Register 'k "'k listener list" | Unregister 'k "'k listener"

fun apply_ops :: "'k reg_op list \<Rightarrow> ('k, 'a) emitter \<Rightarrow> error + ('k, 'a) emitter" where
  "apply_ops [] s = Inr s"
| "apply_ops (Register k ls # ops) s =
     (case addListener k ls s of Inl e \<Rightarrow> Inl e | Inr s' \<Rightarrow> apply_ops ops s')"
| "apply_ops (Unregister k l # ops) s = apply_ops ops (removeListener k l s)"

datatype mono_reg_op = MonoRegister "mono_listener list" | MonoUnregister mono_listener

fun mono_apply_ops :: "mono_reg_op list \<Rightarrow> 'a mono \<Rightarrow> error + 'a mono" where
  "mono_apply_ops [] s = Inr s"
| "mono_apply_ops (MonoRegister ls # ops) s =
     (case mono_addListener ls s of Inl e \<Rightarrow> Inl e | Inr s' \<Rightarrow> mono_apply_ops ops s')"
| "mono_apply_ops (MonoUnregister l # ops) s = mono_apply_ops ops (mono_removeListener l s)"

text \<open>
  The specification's bookkeeping, independent of the code: the listeners present form a
  multiset; a registration adds its listeners, a removal of \<open>l\<close> takes away every
  occurrence of \<open>l\<close>. \<open>tally\<close> returns the total number added and the total number
  removed.
\<close>

datatype 'l ledger_op = Added "'l list" | Removed 'l

fun tally :: "'l ledger_op list \<Rightarrow> 'l multiset \<Rightarrow> nat \<times> nat" where
  "tally [] M = (0, 0)"
| "tally (Added ls # os) M = (case tally os (M + mset ls) of (a, r) \<Rightarrow> (a + length ls, r))"
| "tally (Removed l # os) M =
     (case tally os (filter_mset (\<lambda>x. x \<noteq> l) M) of (a, r) \<Rightarrow> (a, r + count M l))"

fun ledger :: "'k \<Rightarrow> 'k reg_op list \<Rightarrow> 'k listener ledger_op list" where
  "ledger k [] = []"
| "ledger k (Register k' ls # ops) = (if k' = k then Added ls # ledger k ops else ledger k ops)"
| "ledger k (Unregister k' l # ops) = (if k' = k then Removed l # ledger k ops else ledger k ops)"

fun mono_ledger :: "mono_reg_op list \<Rightarrow> mono_listener ledger_op list" where
  "mono_ledger [] = []"
| "mono_ledger (MonoRegister ls # ops) = Added ls # mono_ledger ops"
| "mono_ledger (MonoUnregister l # ops) = Removed l # mono_ledger ops"

section \<open>A dispatch over a captured list\<close>

text \<open>
  The specification's dispatch: the listeners of a list taken when the dispatch
  starts are called in turn with the arguments, each in the state the calls before it
  left; the values they return are collected in that order, and the first exception ends
  the dispatch.
\<close>

fun dispatch_snapshot ::
  "('k, 'a, 'v) env \<Rightarrow> 'k listener list \<Rightarrow> 'a list \<Rightarrow> ('k, 'a) emitter
     \<Rightarrow> 'v option retval list outcome \<times> ('k, 'a) emitter" where
  "dispatch_snapshot env [] args s = (Returned [], s)"
| "dispatch_snapshot env (l # ls) args s =
     (case call_listener env l args s of
        (Thrown e, s') \<Rightarrow> (Thrown e, s')
      | (Returned r, s') \<Rightarrow>
          (case dispatch_snapshot env ls args s' of
             (Thrown e, s'') \<Rightarrow> (Thrown e, s'')
           | (Returned rs, s'') \<Rightarrow> (Returned (r # rs), s'')))"

fun mono_dispatch_snapshot ::
  "('a, 'v) mono_env \<Rightarrow> mono_listener list \<Rightarrow> 'a list \<Rightarrow> 'a mono
     \<Rightarrow> 'v option retval list outcome \<times> 'a mono" where
  "mono_dispatch_snapshot env [] args s = (Returned [], s)"
| "mono_dispatch_snapshot env (l # ls) args s =
     (case mono_call_listener env l args s of
        (Thrown e, s') \<Rightarrow> (Thrown e, s')
      | (Returned r, s') \<Rightarrow>
          (case mono_dispatch_snapshot env ls args s' of
             (Thrown e, s'') \<Rightarrow> (Thrown e, s'')
           | (Returned rs, s'') \<Rightarrow> (Returned (r # rs), s'')))"

text \<open>The same with the results so far as an accumulator and the nested emitter as a
  parameter, the form the proofs use.\<close>

fun call_in_order ::
  "(('k, 'a) reentrant \<Rightarrow> ('k, 'a) emitter \<Rightarrow> 'v reply \<times> ('k, 'a) emitter)
     \<Rightarrow> ('k, 'a, 'v) env \<Rightarrow> 'k listener list \<Rightarrow> 'a list \<Rightarrow> 'v option retval list
     \<Rightarrow> ('k, 'a) emitter \<Rightarrow> 'v option retval list outcome \<times> ('k, 'a) emitter" where
  "call_in_order sub env [] args acc s = (Returned acc, s)"
| "call_in_order sub env (l # ls) args acc s =
     (case invoke sub env l args s of
        (Thrown e, s') \<Rightarrow> (Thrown e, s')
      | (Returned r, s') \<Rightarrow> call_in_order sub env ls args (acc @ [r]) s')"

fun mono_call_in_order ::
  "('a mono_reentrant \<Rightarrow> 'a mono \<Rightarrow> 'v reply \<times> 'a mono)
     \<Rightarrow> ('a, 'v) mono_env \<Rightarrow> mono_listener list \<Rightarrow> 'a list \<Rightarrow> 'v option retval list
     \<Rightarrow> 'a mono \<Rightarrow> 'v option retval list outcome \<times> 'a mono" where
  "mono_call_in_order sub env [] args acc s = (Returned acc, s)"
| "mono_call_in_order sub env (l # ls) args acc s =
     (case mono_invoke sub env l args s of
        (Thrown e, s') \<Rightarrow> (Thrown e, s')
      | (Returned r, s') \<Rightarrow> mono_call_in_order sub env ls args (acc @ [r]) s')"

text \<open>Whether a call returned (rather than threw).\<close>

definition returned :: "'r outcome \<Rightarrow> bool" where
  "returned out = (case out of Returned r \<Rightarrow> True | Thrown e \<Rightarrow> False)"

section \<open>Kinds of applications\<close>

text \<open>
  An application that leaves the arrays of the emitter alone: no listener updates in
  place an array it got from the accessor. An application without re-entrant calls: no
  listener dispatches or calls a listener function itself.
\<close>

definition is_write :: "('k, 'a) call \<Rightarrow> bool" where
  "is_write c = (case c of CallArrayWrite a xs \<Rightarrow> True | _ \<Rightarrow> False)"

definition is_reentry :: "('k, 'a) call \<Rightarrow> bool" where
  "is_reentry c =
     (case c of CallEmit k args \<Rightarrow> True | CallEmitSync k args \<Rightarrow> True
      | CallListener l args \<Rightarrow> True | _ \<Rightarrow> False)"

primrec registry_only_prog :: "('k, 'a, 'v) prog \<Rightarrow> bool" where
  "registry_only_prog (Return r) = True"
| "registry_only_prog (Step c f) = (\<not> is_write c \<and> (\<forall>e s. registry_only_prog (f e s)))"

primrec no_reentry_prog :: "('k, 'a, 'v) prog \<Rightarrow> bool" where
  "no_reentry_prog (Return r) = True"
| "no_reentry_prog (Step c f) = (\<not> is_reentry c \<and> (\<forall>e s. no_reentry_prog (f e s)))"

definition registry_only :: "('k, 'a, 'v) env \<Rightarrow> bool" where
  "registry_only env = (\<forall>f args. registry_only_prog (listener_prog env f args))"

definition no_reentry :: "('k, 'a, 'v) env \<Rightarrow> bool" where
  "no_reentry env = (\<forall>f args. no_reentry_prog (listener_prog env f args))"

definition mono_is_write :: "'a mono_call \<Rightarrow> bool" where
  "mono_is_write c = (case c of MonoCallArrayWrite a xs \<Rightarrow> True | _ \<Rightarrow> False)"

definition mono_is_reentry :: "'a mono_call \<Rightarrow> bool" where
  "mono_is_reentry c =
     (case c of MonoCallEmit args \<Rightarrow> True | MonoCallEmitSync args \<Rightarrow> True
      | MonoCallListener l args \<Rightarrow> True | _ \<Rightarrow> False)"

primrec mono_registry_only_prog :: "('a, 'v) mono_prog \<Rightarrow> bool" where
  "mono_registry_only_prog (MonoReturn r) = True"
| "mono_registry_only_prog (MonoStep c f) =
     (\<not> mono_is_write c \<and> (\<forall>e s. mono_registry_only_prog (f e s)))"

primrec mono_no_reentry_prog :: "('a, 'v) mono_prog \<Rightarrow> bool" where
  "mono_no_reentry_prog (MonoReturn r) = True"
| "mono_no_reentry_prog (MonoStep c f) =
     (\<not> mono_is_reentry c \<and> (\<forall>e s. mono_no_reentry_prog (f e s)))"

definition mono_registry_only :: "('a, 'v) mono_env \<Rightarrow> bool" where
  "mono_registry_only env = (\<forall>f args. mono_registry_only_prog (mono_listener_prog env f args))"

definition mono_no_reentry :: "('a, 'v) mono_env \<Rightarrow> bool" where
  "mono_no_reentry env = (\<forall>f args. mono_no_reentry_prog (mono_listener_prog env f args))"

section \<open>The promise of a wait and the trace\<close>

text \<open>
  The arguments of the first call, in a trace, of the callback of the wait \<open>p\<close>;
  and what that makes of the promise: a pending promise is fulfilled with these
  arguments, a settled one stays as it is.
\<close>

fun first_call :: "nat \<Rightarrow> ('k listener \<times> 'a list) list \<Rightarrow> 'a list option" where
  "first_call p [] = None"
| "first_call p ((Fn f, args) # tr) = first_call p tr"
| "first_call p ((WaitCallback k q, args) # tr) = (if q = p then Some args else first_call p tr)"

fun mono_first_call :: "nat \<Rightarrow> (mono_listener \<times> 'a list) list \<Rightarrow> 'a list option" where
  "mono_first_call p [] = None"
| "mono_first_call p ((MonoFn f, args) # tr) = mono_first_call p tr"
| "mono_first_call p ((MonoWaitCallback q, args) # tr) =
     (if q = p then Some args else mono_first_call p tr)"

definition settle_by :: "'x option \<Rightarrow> 'x promise_state \<Rightarrow> 'x promise_state" where
  "settle_by first q =
     (case q of
        Pending \<Rightarrow> (case first of None \<Rightarrow> Pending | Some a \<Rightarrow> Fulfilled a)
      | Fulfilled v \<Rightarrow> Fulfilled v
      | Rejected e \<Rightarrow> Rejected e)"

text \<open>The part of the trace that a run from \<open>s\<close> to \<open>s'\<close> has added.\<close>

definition new_calls :: "('k, 'a) emitter \<Rightarrow> ('k, 'a) emitter \<Rightarrow> ('k listener \<times> 'a list) list" where
  "new_calls s s' = drop (length (invoked s)) (invoked s')"

definition mono_new_calls :: "'a mono \<Rightarrow> 'a mono \<Rightarrow> (mono_listener \<times> 'a list) list" where
  "mono_new_calls s s' = drop (length (m_invoked s)) (m_invoked s')"

section \<open>What the calls of the application keep\<close>

text \<open>
  What every run of calls keeps (\<open>client_rel\<close>): the trace only grows, allocation only
  grows, a well-formed emitter stays so, and the promise of a wait made before the run
  moves only as the calls of its callback in the added trace say. What a run without
  array updates keeps in addition (\<open>kept\<close>): an array allocated before the run keeps its
  elements (EventEmitter, which never updates an array in place) or keeps them as a
  prefix (MonoEmitter, whose \<open>push\<close> appends in place).
\<close>

definition kept :: "('k, 'a) emitter \<Rightarrow> ('k, 'a) emitter \<Rightarrow> bool" where
  "kept s s' = (nxt s \<le> nxt s' \<and> (\<forall>a<nxt s. heap s' a = heap s a))"

definition mono_kept :: "'a mono \<Rightarrow> 'a mono \<Rightarrow> bool" where
  "mono_kept s s' = (m_nxt s \<le> m_nxt s' \<and> (\<forall>a<m_nxt s. \<exists>ys. m_heap s' a = m_heap s a @ ys))"

definition client_rel :: "('k, 'a) emitter \<Rightarrow> ('k, 'a) emitter \<Rightarrow> bool" where
  "client_rel s s' =
     ((well_formed s \<longrightarrow> well_formed s') \<and> nxt s \<le> nxt s' \<and> nwaits s \<le> nwaits s' \<and>
      (\<exists>tr. invoked s' = invoked s @ tr \<and>
         (\<forall>p<nwaits s. promises s' p = settle_by (first_call p tr) (promises s p))))"

definition mono_client_rel :: "'a mono \<Rightarrow> 'a mono \<Rightarrow> bool" where
  "mono_client_rel s s' =
     ((mono_well_formed s \<longrightarrow> mono_well_formed s') \<and> m_nxt s \<le> m_nxt s' \<and>
      m_nwaits s \<le> m_nwaits s' \<and>
      (\<exists>tr. m_invoked s' = m_invoked s @ tr \<and>
         (\<forall>p<m_nwaits s. m_promises s' p = settle_by (mono_first_call p tr) (m_promises s p))))"

text \<open>What a method of the emitter other than a dispatch keeps: all of the above, and
  the trace and the promises as they are.\<close>

definition frame :: "('k, 'a) emitter \<Rightarrow> ('k, 'a) emitter \<Rightarrow> bool" where
  "frame s s' =
     (kept s s' \<and> (well_formed s \<longrightarrow> well_formed s') \<and> invoked s' = invoked s \<and> nwaits s \<le> nwaits s' \<and>
      (\<forall>p<nwaits s. promises s' p = promises s p))"

definition mono_frame :: "'a mono \<Rightarrow> 'a mono \<Rightarrow> bool" where
  "mono_frame s s' =
     (mono_kept s s' \<and> (mono_well_formed s \<longrightarrow> mono_well_formed s') \<and> m_invoked s' = m_invoked s \<and>
      m_nwaits s \<le> m_nwaits s' \<and> (\<forall>p<m_nwaits s. m_promises s' p = m_promises s p))"

section \<open>Example states\<close>

text \<open>An emitter with the listener \<open>Fn 1\<close> on the event \<open>x\<close>, and a mono
  emitter with the listener \<open>MonoFn 1\<close>.\<close>

definition ex_emitter :: "(string, nat) emitter" where
  "ex_emitter = new_emitter\<lparr>heap := (\<lambda>_. [])(0 := [Fn 1]), nxt := 1, events := [''x'' \<mapsto> 0]\<rparr>"

definition ex_mono :: "nat mono" where
  "ex_mono = new_mono\<lparr>m_heap := (\<lambda>_. [])(0 := [MonoFn 1])\<rparr>"

text \<open>
  Listeners of the application for the examples. Listener 1 registers \<open>Fn 3\<close> and
  removes \<open>Fn 2\<close> on the event \<open>x\<close> while it runs, and returns an awaitable.
  Listener 9 throws. Every other listener returns its own number.
\<close>

definition ex_env :: "(string, nat, nat) env" where
  "ex_env =
     \<lparr>listener_prog = (\<lambda>f args.
        if f = 1 then
          straight [CallAddListener ''x'' [Fn 3], CallRemoveListener ''x'' (Fn 2)]
            (Returned (Awaitable (Resolves 5 (Some 11))))
        else if f = 9 then Return (Thrown (ListenerError 9))
        else Return (Returned (Plain (Some f)))),
      stack_limit = 2\<rparr>"

definition ex_mono_env :: "(nat, nat) mono_env" where
  "ex_mono_env =
     \<lparr>mono_listener_prog = (\<lambda>f args.
        if f = 1 then
          mono_straight [MonoCallAddListener [MonoFn 3], MonoCallRemoveListener (MonoFn 2)]
            (Returned (Awaitable (Resolves 5 (Some 11))))
        else if f = 9 then MonoReturn (Thrown (ListenerError 9))
        else MonoReturn (Returned (Plain (Some f)))),
      mono_stack_limit = 2\<rparr>"

text \<open>
  An application with two more listeners. Listener 4 does
  \<open>getListeners("x").pop()\<close>. Listener 6 emits the argument 99 on the event \<open>x\<close>,
  unless it is called with that argument itself.
\<close>

definition ex_env_wild :: "(string, nat, nat) env" where
  "ex_env_wild =
     \<lparr>listener_prog = (\<lambda>f args.
        if f = 4 then
          Step (CallGetListeners ''x'')
            (\<lambda>r s. case r of
               GotArray a \<Rightarrow>
                 Step (CallArrayWrite a (butlast (heap s a))) (\<lambda>r s. Return (Returned (Plain (Some 4))))
             | _ \<Rightarrow> Return (Returned (Plain None)))
        else if f = 6 then
          (if args = [99] then Return (Returned (Plain (Some 6)))
           else straight [CallEmitSync ''x'' [99]] (Returned (Plain (Some 6))))
        else listener_prog ex_env f args),
      stack_limit = 2\<rparr>"

definition ex_mono_env_wild :: "(nat, nat) mono_env" where
  "ex_mono_env_wild =
     \<lparr>mono_listener_prog = (\<lambda>f args.
        if f = 4 then
          MonoStep MonoCallGetListeners
            (\<lambda>r s. case r of
               GotArray a \<Rightarrow>
                 MonoStep (MonoCallArrayWrite a (butlast (m_heap s a)))
                   (\<lambda>r s. MonoReturn (Returned (Plain (Some 4))))
             | _ \<Rightarrow> MonoReturn (Returned (Plain None)))
        else if f = 6 then
          (if args = [99] then MonoReturn (Returned (Plain (Some 6)))
           else mono_straight [MonoCallEmitSync [99]] (Returned (Plain (Some 6))))
        else mono_listener_prog ex_mono_env f args),
      mono_stack_limit = 2\<rparr>"

text \<open>The listeners \<open>Fn 1\<close>, \<open>Fn 2\<close> on the event \<open>x\<close>, and the same for the
  mono emitter.\<close>

definition ex_two :: "(string, nat) emitter" where
  "ex_two =
     new_emitter\<lparr>heap := (\<lambda>_. [])(0 := [Fn 1, Fn 2]), nxt := 1, events := [''x'' \<mapsto> 0]\<rparr>"

definition ex_mono_two :: "nat mono" where
  "ex_mono_two = new_mono\<lparr>m_heap := (\<lambda>_. [])(0 := [MonoFn 1, MonoFn 2])\<rparr>"

text \<open>The listeners \<open>Fn 4\<close>, which pops the array, and \<open>Fn 5\<close>.\<close>

definition ex_popping :: "(string, nat) emitter" where
  "ex_popping =
     new_emitter\<lparr>heap := (\<lambda>_. [])(0 := [Fn 4, Fn 5]), nxt := 1, events := [''x'' \<mapsto> 0]\<rparr>"

definition ex_mono_popping :: "nat mono" where
  "ex_mono_popping = new_mono\<lparr>m_heap := (\<lambda>_. [])(0 := [MonoFn 4, MonoFn 5])\<rparr>"

text \<open>A new emitter on which \<open>wait\<close> was called once, for the event \<open>x\<close>.\<close>

definition ex_waiting :: "(string, nat) emitter" where
  "ex_waiting = snd (wait ''x'' None new_emitter)"

definition ex_mono_waiting :: "nat mono" where
  "ex_mono_waiting = snd (mono_wait None new_mono)"

text \<open>
  A pending wait whose callback stands behind another listener: \<open>Fn 9\<close>, which
  throws, or \<open>Fn 6\<close>, which emits. On the emitter the listener is registered after
  the wait and lands before the callback; on the mono emitter, which appends, it is
  registered before the wait.
\<close>

definition ex_waiting_behind :: "nat \<Rightarrow> (string, nat) emitter" where
  "ex_waiting_behind f =
     (case addListener ''x'' [Fn f] ex_waiting of Inr s \<Rightarrow> s | Inl e \<Rightarrow> ex_waiting)"

definition ex_mono_waiting_behind :: "nat \<Rightarrow> nat mono" where
  "ex_mono_waiting_behind f =
     (case mono_addListener [MonoFn f] new_mono of
        Inr s \<Rightarrow> snd (mono_wait None s)
      | Inl e \<Rightarrow> new_mono)"

section \<open>Basic facts\<close>

lemma well_formed_new_emitter: "well_formed new_emitter"
  by (simp add: well_formed_def new_emitter_def)

lemma mono_well_formed_new_mono: "mono_well_formed new_mono"
  by (simp add: mono_well_formed_def new_mono_def)

lemma listener_list_eq:
  "listener_list s k = (case events s k of Some a \<Rightarrow> heap s a | None \<Rightarrow> [])"
  by (simp add: listener_list_def getListeners_def alloc_def split: option.splits)

lemma listenerCount_eq: "listenerCount s k = length (listener_list s k)"
  by (simp add: listenerCount_def listener_list_def split: prod.splits)

lemma listenersCount_eq: "listenersCount m = length (mono_list m)"
  by (simp add: listenersCount_def mono_list_def)

lemma addListener_Inr:
  "addListener k ls s = Inr s' \<Longrightarrow>
     s' = s\<lparr>heap := (heap s)(nxt s := ls @ listener_list s k), nxt := Suc (nxt s),
            events := (events s)(k \<mapsto> nxt s)\<rparr>"
  by (auto simp: addListener_def alloc_def listener_list_eq split: if_splits option.splits)

lemma addListener_Inl: "addListener k ls s = Inl e \<Longrightarrow> e = LimitExceeded"
  by (auto simp: addListener_def split: if_splits prod.splits)

lemma removeListener_eq:
  "removeListener k l s =
     s\<lparr>heap := (heap s)(nxt s := filter (\<lambda>x. x \<noteq> l) (listener_list s k)), nxt := Suc (nxt s),
       events := (events s)(k \<mapsto> nxt s)\<rparr>"
  by (auto simp: removeListener_def alloc_def listener_list_eq split: option.splits)

text \<open>When the two checks throw.\<close>

lemma addListener_fails_iff:
  "(addListener k ls s = Inl e) =
     (e = LimitExceeded \<and>
      (\<exists>n. maxListeners s k = Some n \<and> n \<noteq> - 1 \<and> int (listenerCount s k) > n))"
  by (auto simp: addListener_def truthy_def js_gt_def maxCount_def alloc_def
      split: option.splits prod.splits)

lemma mono_addListener_fails_iff:
  "(mono_addListener ls m = Inl e) =
     (e = LimitExceeded \<and>
      (\<exists>n. maxListenersCount m = Some n \<and> n \<noteq> 0 \<and> n < int (listenersCount m) + 1))"
  by (auto simp: mono_addListener_def truthy_def js_lt_def split: option.splits)

section \<open>What the calls keep: EventEmitter\<close>

lemma frame_refl: "frame s s" by (simp add: frame_def kept_def)

lemma frame_trans: "frame s s1 \<Longrightarrow> frame s1 s2 \<Longrightarrow> frame s s2"
  by (auto simp: frame_def kept_def)

lemma addListener_frame: "addListener k ls s = Inr s' \<Longrightarrow> frame s s'"
  by (drule addListener_Inr) (auto simp: frame_def kept_def well_formed_def less_Suc_eq)

lemma removeListener_frame: "frame s (removeListener k l s)"
  by (auto simp: removeListener_eq frame_def kept_def well_formed_def less_Suc_eq)

lemma getListeners_frame: "frame s (snd (getListeners k s))"
  by (auto simp: getListeners_def alloc_def frame_def kept_def well_formed_def less_Suc_eq
      split: option.splits)

lemma wait_frame: "frame s (snd (wait k t s))"
proof -
  let ?s1 = "s\<lparr>promises := (promises s)(nwaits s := Pending),
                 fullfilled := (fullfilled s)(nwaits s := False),
                 nwaits := Suc (nwaits s)\<rparr>"
  have f1: "frame s ?s1" by (simp add: frame_def kept_def well_formed_def)
  show ?thesis
  proof (cases "addListener k [WaitCallback k (nwaits s)] ?s1")
    case (Inl e)
    then have "snd (wait k t s) = ?s1\<lparr>promises := (promises ?s1)(nwaits s := Rejected e)\<rparr>"
      by (simp add: wait_def Let_def)
    then show ?thesis by (simp add: frame_def kept_def well_formed_def)
  next
    case (Inr s2)
    from addListener_frame [OF Inr] f1 have f2: "frame s s2" by (rule frame_trans [rotated])
    have "frame s2 (s2\<lparr>timers := ts\<rparr>)" for ts by (simp add: frame_def kept_def well_formed_def)
    with f2 have "frame s (s2\<lparr>timers := ts\<rparr>)" for ts by (rule frame_trans)
    with f2 Inr show ?thesis by (simp add: wait_def Let_def split: option.splits)
  qed
qed

lemma first_call_append:
  "first_call p (tr1 @ tr2) = (case first_call p tr1 of Some a \<Rightarrow> Some a | None \<Rightarrow> first_call p tr2)"
  by (induction p tr1 rule: first_call.induct) auto

lemma settle_by_None: "settle_by None q = q"
  by (simp add: settle_by_def split: promise_state.splits)

lemma settle_by_append:
  "settle_by (first_call p (tr1 @ tr2)) q = settle_by (first_call p tr2) (settle_by (first_call p tr1) q)"
  by (simp add: settle_by_def first_call_append split: promise_state.splits option.splits)

lemma client_rel_refl: "client_rel s s"
  by (simp add: client_rel_def settle_by_None)

lemma client_rel_trans:
  assumes "client_rel s s1" "client_rel s1 s2"
  shows "client_rel s s2"
proof -
  from assms(1) obtain tr1 where t1: "invoked s1 = invoked s @ tr1"
    and p1: "\<And>p. p < nwaits s \<Longrightarrow> promises s1 p = settle_by (first_call p tr1) (promises s p)"
    and n1: "nwaits s \<le> nwaits s1" "nxt s \<le> nxt s1" "well_formed s \<longrightarrow> well_formed s1"
    unfolding client_rel_def by blast
  from assms(2) obtain tr2 where t2: "invoked s2 = invoked s1 @ tr2"
    and p2: "\<And>p. p < nwaits s1 \<Longrightarrow> promises s2 p = settle_by (first_call p tr2) (promises s1 p)"
    and n2: "nwaits s1 \<le> nwaits s2" "nxt s1 \<le> nxt s2" "well_formed s1 \<longrightarrow> well_formed s2"
    unfolding client_rel_def by blast
  have "promises s2 p = settle_by (first_call p (tr1 @ tr2)) (promises s p)" if "p < nwaits s" for p
    using that p1 [of p] p2 [of p] n1(1) by (simp add: settle_by_append)
  moreover from t1 t2 have "invoked s2 = invoked s @ (tr1 @ tr2)" by simp
  ultimately show ?thesis using n1 n2 unfolding client_rel_def by (intro conjI exI [of _ "tr1 @ tr2"]) auto
qed

lemma frame_client_rel: "frame s s' \<Longrightarrow> client_rel s s'"
  unfolding frame_def client_rel_def kept_def
  by (intro conjI exI [of _ "[]"]) (auto simp: settle_by_None)

lemma frame_kept: "frame s s' \<Longrightarrow> kept s s'"
  by (simp add: frame_def)

lemma kept_refl: "kept s s" by (simp add: kept_def)

lemma kept_trans: "kept s s1 \<Longrightarrow> kept s1 s2 \<Longrightarrow> kept s s2"
  by (auto simp: kept_def)

lemma perform_frame:
  assumes "\<not> is_reentry c" "\<not> is_write c"
  shows "frame s (snd (perform sub c s))"
proof (cases c)
  case (CallAddListener k ls)
  then show ?thesis by (auto simp: addListener_frame frame_refl split: sum.splits)
next
  case (CallRemoveListener k l)
  then show ?thesis by (simp add: removeListener_frame)
next
  case (CallRemoveListeners k)
  then show ?thesis by (auto simp: removeListeners_def frame_def kept_def well_formed_def split: if_splits)
next
  case CallClear
  then show ?thesis by (auto simp: clear_def frame_def kept_def well_formed_def)
next
  case (CallWait k t)
  then show ?thesis by (simp add: wait_frame)
next
  case (CallGetListeners k)
  then show ?thesis by (simp add: getListeners_frame)
next
  case (CallListenerCount k)
  then show ?thesis by (simp add: frame_refl)
next
  case (CallSetMaxListeners k v)
  then show ?thesis by (simp add: frame_def kept_def well_formed_def)
qed (use assms in \<open>simp_all add: is_reentry_def is_write_def\<close>)

lemma perform_client:
  assumes "\<And>c s. client_rel s (snd (sub c s))"
  shows "client_rel s (snd (perform sub c s))"
proof (cases "is_reentry c")
  case True
  with assms show ?thesis by (cases c) (simp_all add: is_reentry_def)
next
  case False
  show ?thesis
  proof (cases "is_write c")
    case True
    then obtain a xs where "c = CallArrayWrite a xs" by (cases c) (simp_all add: is_write_def)
    then show ?thesis
      unfolding client_rel_def
      by (intro conjI exI [of _ "[]"]) (auto simp: settle_by_None well_formed_def)
  next
    case w: False
    from perform_frame [OF False w] show ?thesis by (rule frame_client_rel)
  qed
qed

lemma run_prog_client:
  assumes "\<And>c s. client_rel s (snd (sub c s))"
  shows "client_rel s (snd (run_prog sub pr s))"
proof (induction pr arbitrary: s)
  case (Return r)
  show ?case by (simp add: client_rel_refl)
next
  case (Step c f)
  obtain e s1 where p: "perform sub c s = (e, s1)" by force
  from perform_client [of sub s c, OF assms] p have 1: "client_rel s s1" by simp
  have "client_rel s1 (snd (run_prog sub (f e s1) s1))"
    by (rule Step.IH) (auto intro: rangeI)
  with 1 p show ?case by (auto intro: client_rel_trans)
qed


lemma wait_callback_client:
  "client_rel s (wait_callback k p args (s\<lparr>invoked := invoked s @ [(WaitCallback k p, args)]\<rparr>))"
  unfolding client_rel_def
  by (intro conjI exI [of _ "[(WaitCallback k p, args)]"])
    (auto simp: wait_callback_def Let_def resolve_def removeListener_eq well_formed_def
      settle_by_def less_Suc_eq split: promise_state.splits)

lemma log_client: "client_rel s (s\<lparr>invoked := invoked s @ [(Fn f, args)]\<rparr>)"
  unfolding client_rel_def
  by (intro conjI exI [of _ "[(Fn f, args)]"]) (auto simp: well_formed_def settle_by_None)

lemma invoke_client:
  assumes "\<And>c s. client_rel s (snd (sub c s))"
  shows "client_rel s (snd (invoke sub env l args s))"
proof (cases l)
  case (Fn f)
  let ?s0 = "s\<lparr>invoked := invoked s @ [(Fn f, args)]\<rparr>"
  have "client_rel ?s0 (snd (run_prog sub (listener_prog env f args) ?s0))"
    using assms by (rule run_prog_client)
  with log_client [of s f args] have "client_rel s (snd (run_prog sub (listener_prog env f args) ?s0))"
    by (rule client_rel_trans)
  with Fn show ?thesis by (simp add: invoke_def Let_def)
next
  case (WaitCallback k p)
  with wait_callback_client [of s k p args] show ?thesis by (simp add: invoke_def Let_def)
qed

lemma invoke_trace:
  assumes "\<And>c s. client_rel s (snd (sub c s))"
  shows "\<exists>tr. invoked (snd (invoke sub env l args s)) = invoked s @ (l, args) # tr"
proof (cases l)
  case (Fn f)
  let ?s0 = "s\<lparr>invoked := invoked s @ [(Fn f, args)]\<rparr>"
  from run_prog_client [of sub ?s0 "listener_prog env f args", OF assms]
  obtain tr where "invoked (snd (run_prog sub (listener_prog env f args) ?s0)) = invoked ?s0 @ tr"
    unfolding client_rel_def by blast
  with Fn show ?thesis by (simp add: invoke_def Let_def)
next
  case (WaitCallback k p)
  then show ?thesis
    by (simp add: invoke_def Let_def wait_callback_def resolve_def removeListener_eq)
qed

lemma array_map_client:
  assumes "\<And>c s. client_rel s (snd (sub c s))"
  shows "client_rel s (snd (array_map sub env a args n i acc s))"
proof (induction n arbitrary: i acc s)
  case 0
  show ?case by (simp add: client_rel_refl)
next
  case (Suc n)
  show ?case
  proof (cases "i < length (heap s a)")
    case False
    with Suc.IH show ?thesis by simp
  next
    case True
    obtain o1 s1 where inv: "invoke sub env (heap s a ! i) args s = (o1, s1)" by force
    from invoke_client [of sub s env "heap s a ! i" args, OF assms] inv
    have 1: "client_rel s s1" by simp
    show ?thesis
    proof (cases o1)
      case (Thrown e)
      with True inv 1 show ?thesis by simp
    next
      case (Returned r)
      from 1 Suc.IH [of s1 "Suc i" "acc @ [r]"]
      have "client_rel s (snd (array_map sub env a args n (Suc i) (acc @ [r]) s1))"
        by (rule client_rel_trans)
      with True inv Returned show ?thesis by simp
    qed
  qed
qed

lemma map_listeners_client:
  assumes "\<And>c s. client_rel s (snd (sub c s))"
  shows "client_rel s (snd (map_listeners sub env k args s))"
  using array_map_client [of sub _ env _ args _ 0 "[]", OF assms]
  by (simp add: map_listeners_def client_rel_refl split: option.splits)

lemma nested_Suc_state:
  "snd (nested (Suc d) env (NestedEmit k args) s) = snd (map_listeners (nested d env) env k args s)"
  "snd (nested (Suc d) env (NestedEmitSync k args) s) = snd (map_listeners (nested d env) env k args s)"
  "snd (nested (Suc d) env (NestedCall l args) s) = snd (invoke (nested d env) env l args s)"
  by (simp_all split: prod.splits outcome.splits)

lemma nested_client: "client_rel s (snd (nested d env c s))"
proof (induction d arbitrary: c s)
  case 0
  show ?case by (simp add: client_rel_refl)
next
  case (Suc d)
  show ?case
  proof (cases c)
    case (NestedEmit k args)
    with map_listeners_client [of "nested d env" s env k args, OF Suc.IH]
    show ?thesis by (simp only: nested_Suc_state)
  next
    case (NestedEmitSync k args)
    with map_listeners_client [of "nested d env" s env k args, OF Suc.IH]
    show ?thesis by (simp only: nested_Suc_state)
  next
    case (NestedCall l args)
    with invoke_client [of "nested d env" s env l args, OF Suc.IH]
    show ?thesis by (simp only: nested_Suc_state)
  qed
qed

lemma emitSync_client: "client_rel s (snd (emitSync env k args s))"
  unfolding emitSync_def by (rule map_listeners_client) (rule nested_client)

lemma call_listener_client: "client_rel s (snd (call_listener env l args s))"
  unfolding call_listener_def by (rule invoke_client) (rule nested_client)

lemma emit_eq:
  "emit env k args s =
     (case emitSync env k args s of
        (Thrown e, s') \<Rightarrow> (Thrown e, s')
      | (Returned rs, s') \<Rightarrow> (Returned (promise_all rs), s'))"
  by (simp add: emit_def emitSync_def)

lemma emit_state: "snd (emit env k args s) = snd (emitSync env k args s)"
  by (simp add: emit_eq split: prod.splits outcome.splits)

lemma emit_returned: "returned (fst (emit env k args s)) = returned (fst (emitSync env k args s))"
  by (simp add: emit_eq returned_def split: prod.splits outcome.splits)

text \<open>The promise of a wait through any run of calls.\<close>

lemma client_rel_promise:
  assumes "client_rel s s'" "p < nwaits s"
  shows "promises s' p = settle_by (first_call p (new_calls s s')) (promises s p)"
    and "p < nwaits s'"
  using assms unfolding client_rel_def new_calls_def by auto


lemma take_Suc_drop: "i < length xs \<Longrightarrow> take (Suc m) (drop i xs) = xs ! i # take m (drop (Suc i) xs)"
  by (simp add: Cons_nth_drop_Suc [symmetric])

lemma perform_kept:
  assumes "\<And>c s. kept s (snd (sub c s))" "\<not> is_write c"
  shows "kept s (snd (perform sub c s))"
proof (cases "is_reentry c")
  case True
  with assms(1) show ?thesis by (cases c) (simp_all add: is_reentry_def)
next
  case False
  from perform_frame [OF False assms(2)] show ?thesis by (rule frame_kept)
qed

lemma run_prog_kept:
  assumes "\<And>c s. kept s (snd (sub c s))" "registry_only_prog pr"
  shows "kept s (snd (run_prog sub pr s))"
  using assms(2)
proof (induction pr arbitrary: s)
  case (Return r)
  show ?case by (simp add: kept_refl)
next
  case (Step c f)
  obtain e s1 where p: "perform sub c s = (e, s1)" by force
  from Step.prems have w: "\<not> is_write c" and r: "registry_only_prog (f e s1)" by simp_all
  from perform_kept [of sub c s, OF assms(1) w] p have 1: "kept s s1" by simp
  have "kept s1 (snd (run_prog sub (f e s1) s1))"
    by (rule Step.IH [OF _ _ r]) (auto intro: rangeI)
  with 1 p show ?case by (auto intro: kept_trans)
qed

lemma invoke_kept:
  assumes "\<And>c s. kept s (snd (sub c s))" "registry_only env"
  shows "kept s (snd (invoke sub env l args s))"
proof (cases l)
  case (Fn f)
  let ?s0 = "s\<lparr>invoked := invoked s @ [(Fn f, args)]\<rparr>"
  from assms(2) have "registry_only_prog (listener_prog env f args)" by (simp add: registry_only_def)
  from run_prog_kept [of sub "listener_prog env f args" ?s0, OF assms(1) this]
  have "kept s (snd (run_prog sub (listener_prog env f args) ?s0))" by (simp add: kept_def)
  with Fn show ?thesis by (simp add: invoke_def Let_def)
next
  case (WaitCallback k p)
  then show ?thesis
    by (auto simp: invoke_def Let_def wait_callback_def resolve_def removeListener_eq kept_def)
qed

lemma call_in_order_kept:
  assumes "\<And>c s. kept s (snd (sub c s))" "registry_only env"
  shows "kept s (snd (call_in_order sub env xs args acc s))"
proof (induction xs arbitrary: acc s)
  case Nil
  show ?case by (simp add: kept_refl)
next
  case (Cons l ls)
  obtain o1 s1 where inv: "invoke sub env l args s = (o1, s1)" by force
  from invoke_kept [of sub env s l args, OF assms] inv have 1: "kept s s1" by simp
  show ?case
  proof (cases o1)
    case (Thrown e)
    with inv 1 show ?thesis by simp
  next
    case (Returned r)
    from 1 Cons.IH [of s1 "acc @ [r]"] have "kept s (snd (call_in_order sub env ls args (acc @ [r]) s1))"
      by (rule kept_trans)
    with inv Returned show ?thesis by simp
  qed
qed

lemma array_map_snapshot:
  assumes "\<And>c s. kept s (snd (sub c s))" "registry_only env"
  shows "a < nxt s \<Longrightarrow> i + n \<le> length (heap s a) \<Longrightarrow>
     array_map sub env a args n i acc s = call_in_order sub env (take n (drop i (heap s a))) args acc s"
proof (induction n arbitrary: i acc s)
  case 0
  show ?case by simp
next
  case (Suc n)
  let ?xs = "heap s a"
  from Suc.prems have i: "i < length ?xs" by simp
  obtain o1 s1 where inv: "invoke sub env (?xs ! i) args s = (o1, s1)" by force
  from invoke_kept [of sub env s "?xs ! i" args, OF assms] inv have "kept s s1" by simp
  with Suc.prems have h1: "heap s1 a = ?xs" "a < nxt s1" by (auto simp: kept_def)
  show ?case
  proof (cases o1)
    case (Thrown e)
    with i inv show ?thesis by (simp add: take_Suc_drop)
  next
    case (Returned r)
    from Suc.prems(2) h1 have "Suc i + n \<le> length (heap s1 a)" by simp
    from Suc.IH [OF h1(2) this, of "acc @ [r]"] h1 i inv Returned show ?thesis
      by (simp add: take_Suc_drop)
  qed
qed

lemma map_listeners_snapshot:
  assumes "\<And>c s. kept s (snd (sub c s))" "registry_only env" "well_formed s"
  shows "map_listeners sub env k args s = call_in_order sub env (listener_list s k) args [] s"
proof (cases "events s k")
  case None
  then show ?thesis by (simp add: map_listeners_def listener_list_eq)
next
  case (Some a)
  with assms(3) have "a < nxt s" by (simp add: well_formed_def)
  from array_map_snapshot [of sub env a s 0 "length (heap s a)" args "[]", OF assms(1,2) this] Some
  show ?thesis by (simp add: map_listeners_def listener_list_eq)
qed

lemma array_map_kept:
  assumes "\<And>c s. kept s (snd (sub c s))" "registry_only env"
  shows "kept s (snd (array_map sub env a args n i acc s))"
proof (induction n arbitrary: i acc s)
  case 0
  show ?case by (simp add: kept_refl)
next
  case (Suc n)
  show ?case
  proof (cases "i < length (heap s a)")
    case False
    with Suc.IH show ?thesis by simp
  next
    case True
    obtain o1 s1 where inv: "invoke sub env (heap s a ! i) args s = (o1, s1)" by force
    from invoke_kept [of sub env s "heap s a ! i" args, OF assms] inv have 1: "kept s s1" by simp
    show ?thesis
    proof (cases o1)
      case (Thrown e)
      with True inv 1 show ?thesis by simp
    next
      case (Returned r)
      from 1 Suc.IH [of s1 "Suc i" "acc @ [r]"]
      have "kept s (snd (array_map sub env a args n (Suc i) (acc @ [r]) s1))" by (rule kept_trans)
      with True inv Returned show ?thesis by simp
    qed
  qed
qed

lemma nested_kept:
  assumes "registry_only env"
  shows "kept s (snd (nested d env c s))"
proof (induction d arbitrary: c s)
  case 0
  show ?case by (simp add: kept_refl)
next
  case (Suc d)
  show ?case
  proof (cases c)
    case (NestedEmit k args)
    have "kept s (snd (map_listeners (nested d env) env k args s))"
      using array_map_kept [of "nested d env" env s _ args _ 0 "[]", OF Suc.IH assms]
      by (simp add: map_listeners_def kept_refl split: option.splits)
    with NestedEmit show ?thesis by (simp only: nested_Suc_state)
  next
    case (NestedEmitSync k args)
    have "kept s (snd (map_listeners (nested d env) env k args s))"
      using array_map_kept [of "nested d env" env s _ args _ 0 "[]", OF Suc.IH assms]
      by (simp add: map_listeners_def kept_refl split: option.splits)
    with NestedEmitSync show ?thesis by (simp only: nested_Suc_state)
  next
    case (NestedCall l args)
    with invoke_kept [of "nested d env" env s l args, OF Suc.IH assms]
    show ?thesis by (simp only: nested_Suc_state)
  qed
qed

lemma call_in_order_snapshot:
  "call_in_order (nested (stack_limit env) env) env xs args acc s =
     (case dispatch_snapshot env xs args s of
        (Thrown e, s') \<Rightarrow> (Thrown e, s')
      | (Returned rs, s') \<Rightarrow> (Returned (acc @ rs), s'))"
proof (induction xs arbitrary: acc s)
  case Nil
  show ?case by simp
next
  case (Cons l ls)
  obtain o1 s1 where inv: "call_listener env l args s = (o1, s1)" by force
  show ?case
  proof (cases o1)
    case (Thrown e)
    with inv show ?thesis by (simp add: call_listener_def)
  next
    case (Returned r)
    with inv Cons.IH [of "acc @ [r]" s1] show ?thesis
      by (simp add: call_listener_def split: prod.splits outcome.splits)
  qed
qed

lemma emitSync_snapshot:
  assumes "registry_only env" "well_formed s"
  shows "emitSync env k args s = dispatch_snapshot env (listener_list s k) args s"
proof -
  have "emitSync env k args s
          = call_in_order (nested (stack_limit env) env) env (listener_list s k) args [] s"
    unfolding emitSync_def
    by (rule map_listeners_snapshot [OF nested_kept [OF assms(1)] assms])
  then show ?thesis by (simp add: call_in_order_snapshot split: prod.splits outcome.splits)
qed

lemma perform_quiet: "\<not> is_reentry c \<Longrightarrow> invoked (snd (perform sub c s)) = invoked s"
proof (cases "is_write c")
  case True
  then show ?thesis by (cases c) (simp_all add: is_write_def)
next
  case False
  assume "\<not> is_reentry c"
  from perform_frame [OF this False, of s sub] show ?thesis by (simp add: frame_def)
qed

lemma run_prog_quiet: "no_reentry_prog pr \<Longrightarrow> invoked (snd (run_prog sub pr s)) = invoked s"
proof (induction pr arbitrary: s)
  case (Return r)
  show ?case by simp
next
  case (Step c f)
  obtain e s1 where p: "perform sub c s = (e, s1)" by force
  from Step.prems have w: "\<not> is_reentry c" and r: "no_reentry_prog (f e s1)" by simp_all
  from perform_quiet [OF w, of sub s] p have 1: "invoked s1 = invoked s" by simp
  have "invoked (snd (run_prog sub (f e s1) s1)) = invoked s1"
    by (rule Step.IH [OF _ _ r]) (auto intro: rangeI)
  with 1 p show ?case by simp
qed

lemma invoke_quiet:
  assumes "no_reentry env"
  shows "invoked (snd (invoke sub env l args s)) = invoked s @ [(l, args)]"
proof (cases l)
  case (Fn f)
  from assms have "no_reentry_prog (listener_prog env f args)" by (simp add: no_reentry_def)
  from run_prog_quiet [OF this] Fn show ?thesis by (simp add: invoke_def Let_def)
next
  case (WaitCallback k p)
  then show ?thesis
    by (simp add: invoke_def Let_def wait_callback_def resolve_def removeListener_eq)
qed

lemma array_map_args:
  assumes "no_reentry env"
  shows "\<exists>tr. invoked (snd (array_map sub env a args n i acc s)) = invoked s @ tr \<and>
           (\<forall>x\<in>set tr. snd x = args)"
proof (induction n arbitrary: i acc s)
  case 0
  show ?case by simp
next
  case (Suc n)
  show ?case
  proof (cases "i < length (heap s a)")
    case False
    with Suc.IH [of "Suc i" "acc @ [Plain None]" s] show ?thesis by simp
  next
    case True
    obtain o1 s1 where inv: "invoke sub env (heap s a ! i) args s = (o1, s1)" by force
    from invoke_quiet [OF assms, of sub "heap s a ! i" args s] inv
    have 1: "invoked s1 = invoked s @ [(heap s a ! i, args)]" by simp
    show ?thesis
    proof (cases o1)
      case (Thrown e)
      with True inv 1 show ?thesis by simp
    next
      case (Returned r)
      from Suc.IH [of "Suc i" "acc @ [r]" s1] obtain tr where
        "invoked (snd (array_map sub env a args n (Suc i) (acc @ [r]) s1)) = invoked s1 @ tr"
        "\<forall>x\<in>set tr. snd x = args" by blast
      with True inv Returned 1 show ?thesis by simp
    qed
  qed
qed

lemma emitSync_args:
  assumes "no_reentry env"
  shows "\<forall>x\<in>set (new_calls s (snd (emitSync env k args s))). snd x = args"
proof (cases "events s k")
  case None
  then show ?thesis by (simp add: emitSync_def map_listeners_def new_calls_def)
next
  case (Some a)
  from array_map_args [OF assms, of "nested (stack_limit env) env" a args "length (heap s a)" 0 "[]" s]
    Some
  show ?thesis by (auto simp: emitSync_def map_listeners_def new_calls_def)
qed

lemma first_call_in: "first_call p tr = Some a \<Longrightarrow> \<exists>l. (l, a) \<in> set tr"
  by (induction p tr rule: first_call.induct) (auto split: if_splits)

lemma first_call_found: "(WaitCallback k p, a) \<in> set tr \<Longrightarrow> \<exists>b. first_call p tr = Some b"
  by (induction p tr rule: first_call.induct) auto

text \<open>A dispatch over a list that returns has called every listener of the list.\<close>

lemma call_in_order_calls_all:
  assumes "\<And>c s. client_rel s (snd (sub c s))"
  shows "call_in_order sub env xs args acc s = (Returned rs, s') \<Longrightarrow> l \<in> set xs \<Longrightarrow>
     (l, args) \<in> set (new_calls s s')"
proof (induction xs arbitrary: acc s)
  case Nil
  then show ?case by simp
next
  case (Cons x xs)
  obtain o1 s1 where inv: "invoke sub env x args s = (o1, s1)" by force
  with Cons.prems(1) obtain r where o1: "o1 = Returned r"
    and rest: "call_in_order sub env xs args (acc @ [r]) s1 = (Returned rs, s')"
    by (cases o1) simp_all
  from invoke_trace [of sub env x args s, OF assms] inv obtain tr1 where
    t1: "invoked s1 = invoked s @ (x, args) # tr1" by auto
  have "client_rel s1 (snd (call_in_order sub env xs args (acc @ [r]) s1))"
  proof (induction xs arbitrary: acc s1 r)
    case Nil
    show ?case by (simp add: client_rel_refl)
  next
    case (Cons y ys)
    obtain o2 s2 where i2: "invoke sub env y args s1 = (o2, s2)" by force
    from invoke_client [of sub s1 env y args, OF assms] i2 have c: "client_rel s1 s2" by simp
    show ?case
    proof (cases o2)
      case (Thrown e)
      with i2 c show ?thesis by simp
    next
      case (Returned r2)
      from c Cons.IH [of s2 "acc @ [r]" r2] i2 Returned show ?thesis
        by (auto intro: client_rel_trans)
    qed
  qed
  with rest obtain tr2 where t2: "invoked s' = invoked s1 @ tr2"
    unfolding client_rel_def by auto
  show ?case
  proof (cases "l = x")
    case True
    with t1 t2 show ?thesis by (simp add: new_calls_def)
  next
    case False
    with Cons.prems(2) have "l \<in> set xs" by simp
    from Cons.IH [OF rest this] t1 t2 show ?thesis by (simp add: new_calls_def)
  qed
qed

lemma emitSync_calls_all:
  assumes "registry_only env" "well_formed s" "returned (fst (emitSync env k args s))"
    "l \<in> set (listener_list s k)"
  shows "(l, args) \<in> set (new_calls s (snd (emitSync env k args s)))"
proof -
  obtain out s' where e: "emitSync env k args s = (out, s')" by force
  with assms(3) obtain rs where "out = Returned rs" by (cases out) (simp_all add: returned_def)
  moreover have "emitSync env k args s
          = call_in_order (nested (stack_limit env) env) env (listener_list s k) args [] s"
    unfolding emitSync_def
    by (rule map_listeners_snapshot [OF nested_kept [OF assms(1)] assms(1,2)])
  ultimately
  have "call_in_order (nested (stack_limit env) env) env (listener_list s k) args [] s = (Returned rs, s')"
    using e by simp
  from call_in_order_calls_all [OF nested_client this assms(4)] e show ?thesis by simp
qed

text \<open>The results of a dispatch, call by call.\<close>

lemma call_in_order_chain:
  "call_in_order sub env xs args acc s = (Returned rs, s') \<Longrightarrow>
     \<exists>ss. length ss = Suc (length xs) \<and> ss ! 0 = s \<and> ss ! length xs = s' \<and>
       length rs = length acc + length xs \<and> take (length acc) rs = acc \<and>
       (\<forall>j<length xs. invoke sub env (xs ! j) args (ss ! j)
                         = (Returned (rs ! (length acc + j)), ss ! Suc j))"
proof (induction xs arbitrary: acc s)
  case Nil
  then show ?case by (intro exI [of _ "[s]"]) auto
next
  case (Cons x xs)
  obtain o1 s1 where inv: "invoke sub env x args s = (o1, s1)" by force
  with Cons.prems obtain r where o1: "o1 = Returned r"
    and rest: "call_in_order sub env xs args (acc @ [r]) s1 = (Returned rs, s')"
    by (cases o1) simp_all
  from Cons.IH [OF rest] obtain ss where ss: "length ss = Suc (length xs)" "ss ! 0 = s1"
    "ss ! length xs = s'" "length rs = length (acc @ [r]) + length xs"
    "take (length (acc @ [r])) rs = acc @ [r]"
    and step: "\<And>j. j < length xs \<Longrightarrow> invoke sub env (xs ! j) args (ss ! j)
                         = (Returned (rs ! (length (acc @ [r]) + j)), ss ! Suc j)"
    by blast
  from ss(5) have "take (length acc) (take (length (acc @ [r])) rs) = take (length acc) (acc @ [r])"
    by simp
  then have acc: "take (length acc) rs = acc" by (simp add: min_def)
  from ss(4,5) have "rs ! length acc = (acc @ [r]) ! length acc"
    by (metis length_append_singleton lessI nth_take)
  then have r: "rs ! length acc = r" by simp
  have "invoke sub env ((x # xs) ! j) args ((s # ss) ! j)
          = (Returned (rs ! (length acc + j)), (s # ss) ! Suc j)" if "j < length (x # xs)" for j
  proof (cases j)
    case 0
    with inv o1 r ss(2) show ?thesis by simp
  next
    case (Suc j')
    with that have "j' < length xs" by simp
    from step [OF this] Suc show ?thesis by simp
  qed
  with ss acc show ?case by (intro exI [of _ "s # ss"]) auto
qed

lemma array_map_chain:
  "array_map sub env a args n i acc s = (Returned rs, s') \<Longrightarrow>
     \<exists>ss. length ss = Suc n \<and> ss ! 0 = s \<and> ss ! n = s' \<and>
       length rs = length acc + n \<and> take (length acc) rs = acc \<and>
       (\<forall>j<n. if i + j < length (heap (ss ! j) a)
               then invoke sub env (heap (ss ! j) a ! (i + j)) args (ss ! j)
                      = (Returned (rs ! (length acc + j)), ss ! Suc j)
               else rs ! (length acc + j) = Plain None \<and> ss ! Suc j = ss ! j)"
proof (induction n arbitrary: i acc s)
  case 0
  then show ?case by (intro exI [of _ "[s]"]) auto
next
  case (Suc n)
  define r where "r = (if i < length (heap s a)
      then (case fst (invoke sub env (heap s a ! i) args s) of Returned v \<Rightarrow> v | Thrown e \<Rightarrow> Plain None)
      else Plain None)"
  define s1 where "s1 = (if i < length (heap s a) then snd (invoke sub env (heap s a ! i) args s) else s)"
  have first: "if i < length (heap s a)
      then invoke sub env (heap s a ! i) args s = (Returned r, s1)
      else s1 = s \<and> r = Plain None"
    and rest: "array_map sub env a args n (Suc i) (acc @ [r]) s1 = (Returned rs, s')"
    using Suc.prems unfolding r_def s1_def
    by (auto split: if_splits prod.splits outcome.splits)
  from Suc.IH [OF rest] obtain ss where ss: "length ss = Suc n" "ss ! 0 = s1"
    "ss ! n = s'" "length rs = length (acc @ [r]) + n"
    "take (length (acc @ [r])) rs = acc @ [r]"
    and step: "\<And>j. j < n \<Longrightarrow> (if Suc i + j < length (heap (ss ! j) a)
               then invoke sub env (heap (ss ! j) a ! (Suc i + j)) args (ss ! j)
                      = (Returned (rs ! (length (acc @ [r]) + j)), ss ! Suc j)
               else rs ! (length (acc @ [r]) + j) = Plain None \<and> ss ! Suc j = ss ! j)"
    by blast
  from ss(5) have "take (length acc) (take (length (acc @ [r])) rs) = take (length acc) (acc @ [r])"
    by simp
  then have acc: "take (length acc) rs = acc" by (simp add: min_def)
  from ss(4,5) have "rs ! length acc = (acc @ [r]) ! length acc"
    by (metis length_append_singleton lessI nth_take)
  then have r: "rs ! length acc = r" by simp
  have "if i + j < length (heap ((s # ss) ! j) a)
        then invoke sub env (heap ((s # ss) ! j) a ! (i + j)) args ((s # ss) ! j)
               = (Returned (rs ! (length acc + j)), (s # ss) ! Suc j)
        else rs ! (length acc + j) = Plain None \<and> (s # ss) ! Suc j = (s # ss) ! j"
    if "j < Suc n" for j
  proof (cases j)
    case 0
    with first r ss(2) show ?thesis by (auto split: if_splits)
  next
    case (Suc j')
    with that have "j' < n" by simp
    from step [OF this] Suc show ?thesis by (auto split: if_splits)
  qed
  then have all: "\<forall>j<Suc n. if i + j < length (heap ((s # ss) ! j) a)
        then invoke sub env (heap ((s # ss) ! j) a ! (i + j)) args ((s # ss) ! j)
               = (Returned (rs ! (length acc + j)), (s # ss) ! Suc j)
        else rs ! (length acc + j) = Plain None \<and> (s # ss) ! Suc j = (s # ss) ! j"
    by blast
  show ?case
  proof (intro exI [of _ "s # ss"] conjI)
    show "\<forall>j<Suc n. if i + j < length (heap ((s # ss) ! j) a)
        then invoke sub env (heap ((s # ss) ! j) a ! (i + j)) args ((s # ss) ! j)
               = (Returned (rs ! (length acc + j)), (s # ss) ! Suc j)
        else rs ! (length acc + j) = Plain None \<and> (s # ss) ! Suc j = (s # ss) ! j"
      by (rule all)
  qed (use ss acc in simp_all)
qed

section \<open>What the calls keep: MonoEmitter\<close>

lemma mono_list_eq: "mono_list s = m_heap s (listeners s)"
  by (simp add: mono_list_def)

lemma mono_addListener_Inr:
  "mono_addListener ls s = Inr s' \<Longrightarrow>
     s' = s\<lparr>m_heap := (m_heap s)(listeners s := m_heap s (listeners s) @ ls)\<rparr>"
  by (auto simp: mono_addListener_def split: if_splits)

lemma mono_removeListener_eq:
  "mono_removeListener l s =
     s\<lparr>m_heap := (m_heap s)(m_nxt s := filter (\<lambda>x. x \<noteq> l) (mono_list s)), m_nxt := Suc (m_nxt s),
       listeners := m_nxt s\<rparr>"
  by (simp add: mono_removeListener_def mono_alloc_def mono_list_def)

lemma mono_clear_eq:
  "mono_clear s = s\<lparr>m_heap := (m_heap s)(m_nxt s := []), m_nxt := Suc (m_nxt s), listeners := m_nxt s\<rparr>"
  by (simp add: mono_clear_def mono_alloc_def)

lemma mono_kept_refl: "mono_kept s s"
  by (simp add: mono_kept_def)

lemma mono_kept_trans:
  assumes "mono_kept s s1" "mono_kept s1 s2"
  shows "mono_kept s s2"
proof -
  have "\<exists>ys. m_heap s2 a = m_heap s a @ ys" if "a < m_nxt s" for a
  proof -
    from assms(1) that obtain ys1 where 1: "m_heap s1 a = m_heap s a @ ys1"
      unfolding mono_kept_def by blast
    from assms(1) that have "a < m_nxt s1" unfolding mono_kept_def by simp
    with assms(2) obtain ys2 where 2: "m_heap s2 a = m_heap s1 a @ ys2"
      unfolding mono_kept_def by blast
    from 1 2 have "m_heap s2 a = m_heap s a @ (ys1 @ ys2)" by simp
    then show ?thesis ..
  qed
  moreover from assms have "m_nxt s \<le> m_nxt s2" unfolding mono_kept_def by simp
  ultimately show ?thesis unfolding mono_kept_def by simp
qed

lemma mono_frame_refl: "mono_frame s s"
  by (simp add: mono_frame_def mono_kept_refl)

lemma mono_frame_trans:
  assumes "mono_frame s s1" "mono_frame s1 s2"
  shows "mono_frame s s2"
proof -
  from assms have "mono_kept s s2" unfolding mono_frame_def by (blast intro: mono_kept_trans)
  moreover from assms have "mono_well_formed s \<longrightarrow> mono_well_formed s2" unfolding mono_frame_def by blast
  moreover from assms have "m_invoked s2 = m_invoked s" "m_nwaits s \<le> m_nwaits s2"
    unfolding mono_frame_def by simp_all
  moreover have "m_promises s2 p = m_promises s p" if "p < m_nwaits s" for p
  proof -
    from assms that have "m_promises s1 p = m_promises s p" "p < m_nwaits s1"
      unfolding mono_frame_def by simp_all
    with assms(2) show ?thesis unfolding mono_frame_def by simp
  qed
  ultimately show ?thesis unfolding mono_frame_def by simp
qed

lemma mono_addListener_frame: "mono_addListener ls s = Inr s' \<Longrightarrow> mono_frame s s'"
  by (drule mono_addListener_Inr) (auto simp: mono_frame_def mono_kept_def mono_well_formed_def)

lemma mono_removeListener_frame: "mono_frame s (mono_removeListener l s)"
  by (auto simp: mono_removeListener_eq mono_frame_def mono_kept_def mono_well_formed_def)

lemma mono_clear_frame: "mono_frame s (mono_clear s)"
  by (auto simp: mono_clear_eq mono_frame_def mono_kept_def mono_well_formed_def)

lemma mono_wait_frame: "mono_frame s (snd (mono_wait t s))"
  by (auto simp: mono_wait_def Let_def mono_frame_def mono_kept_def mono_well_formed_def split: option.splits)

lemma mono_first_call_append:
  "mono_first_call p (tr1 @ tr2) =
     (case mono_first_call p tr1 of Some a \<Rightarrow> Some a | None \<Rightarrow> mono_first_call p tr2)"
  by (induction p tr1 rule: mono_first_call.induct) auto

lemma mono_settle_by_append:
  "settle_by (mono_first_call p (tr1 @ tr2)) q =
     settle_by (mono_first_call p tr2) (settle_by (mono_first_call p tr1) q)"
  by (simp add: settle_by_def mono_first_call_append split: promise_state.splits option.splits)

lemma mono_client_rel_refl: "mono_client_rel s s"
  by (simp add: mono_client_rel_def settle_by_None)

lemma mono_client_rel_trans:
  assumes "mono_client_rel s s1" "mono_client_rel s1 s2"
  shows "mono_client_rel s s2"
proof -
  from assms(1) obtain tr1 where t1: "m_invoked s1 = m_invoked s @ tr1"
    and p1: "\<And>p. p < m_nwaits s \<Longrightarrow> m_promises s1 p = settle_by (mono_first_call p tr1) (m_promises s p)"
    and n1: "m_nwaits s \<le> m_nwaits s1" "m_nxt s \<le> m_nxt s1" "mono_well_formed s \<longrightarrow> mono_well_formed s1"
    unfolding mono_client_rel_def by blast
  from assms(2) obtain tr2 where t2: "m_invoked s2 = m_invoked s1 @ tr2"
    and p2: "\<And>p. p < m_nwaits s1 \<Longrightarrow> m_promises s2 p = settle_by (mono_first_call p tr2) (m_promises s1 p)"
    and n2: "m_nwaits s1 \<le> m_nwaits s2" "m_nxt s1 \<le> m_nxt s2" "mono_well_formed s1 \<longrightarrow> mono_well_formed s2"
    unfolding mono_client_rel_def by blast
  have "m_promises s2 p = settle_by (mono_first_call p (tr1 @ tr2)) (m_promises s p)" if "p < m_nwaits s" for p
    using that p1 [of p] p2 [of p] n1(1) by (simp add: mono_settle_by_append)
  moreover from t1 t2 have "m_invoked s2 = m_invoked s @ (tr1 @ tr2)" by simp
  ultimately show ?thesis using n1 n2 unfolding mono_client_rel_def
    by (intro conjI exI [of _ "tr1 @ tr2"]) auto
qed

lemma mono_frame_client_rel: "mono_frame s s' \<Longrightarrow> mono_client_rel s s'"
  unfolding mono_frame_def mono_client_rel_def mono_kept_def
  by (intro conjI exI [of _ "[]"]) (auto simp: settle_by_None)

lemma mono_frame_kept: "mono_frame s s' \<Longrightarrow> mono_kept s s'"
  by (simp add: mono_frame_def)

lemma mono_perform_frame:
  assumes "\<not> mono_is_reentry c" "\<not> mono_is_write c"
  shows "mono_frame s (snd (mono_perform sub c s))"
proof (cases c)
  case (MonoCallAddListener ls)
  then show ?thesis by (auto simp: mono_addListener_frame mono_frame_refl split: sum.splits)
next
  case (MonoCallRemoveListener l)
  then show ?thesis by (simp add: mono_removeListener_frame)
next
  case MonoCallClear
  then show ?thesis by (simp add: mono_clear_frame)
next
  case (MonoCallWait t)
  then show ?thesis by (simp add: mono_wait_frame)
next
  case MonoCallGetListeners
  then show ?thesis by (simp add: mono_frame_refl)
next
  case MonoCallListenersCount
  then show ?thesis by (simp add: mono_frame_refl)
next
  case (MonoCallSetMaxListeners v)
  then show ?thesis by (simp add: mono_frame_def mono_kept_def mono_well_formed_def)
qed (use assms in \<open>simp_all add: mono_is_reentry_def mono_is_write_def\<close>)

lemma mono_perform_client:
  assumes "\<And>c s. mono_client_rel s (snd (sub c s))"
  shows "mono_client_rel s (snd (mono_perform sub c s))"
proof (cases "mono_is_reentry c")
  case True
  with assms show ?thesis by (cases c) (simp_all add: mono_is_reentry_def)
next
  case False
  show ?thesis
  proof (cases "mono_is_write c")
    case True
    then obtain a xs where "c = MonoCallArrayWrite a xs" by (cases c) (simp_all add: mono_is_write_def)
    then show ?thesis
      unfolding mono_client_rel_def
      by (intro conjI exI [of _ "[]"]) (auto simp: settle_by_None mono_well_formed_def)
  next
    case w: False
    from mono_perform_frame [OF False w] show ?thesis by (rule mono_frame_client_rel)
  qed
qed

lemma mono_run_prog_client:
  assumes "\<And>c s. mono_client_rel s (snd (sub c s))"
  shows "mono_client_rel s (snd (mono_run_prog sub pr s))"
proof (induction pr arbitrary: s)
  case (MonoReturn r)
  show ?case by (simp add: mono_client_rel_refl)
next
  case (MonoStep c f)
  obtain e s1 where p: "mono_perform sub c s = (e, s1)" by force
  from mono_perform_client [of sub s c, OF assms] p have 1: "mono_client_rel s s1" by simp
  have "mono_client_rel s1 (snd (mono_run_prog sub (f e s1) s1))"
    by (rule MonoStep.IH) (auto intro: rangeI)
  with 1 p show ?case by (auto intro: mono_client_rel_trans)
qed

lemma mono_wait_callback_client:
  "mono_client_rel s (mono_wait_callback p args (s\<lparr>m_invoked := m_invoked s @ [(MonoWaitCallback p, args)]\<rparr>))"
  unfolding mono_client_rel_def
  by (intro conjI exI [of _ "[(MonoWaitCallback p, args)]"])
    (auto simp: mono_wait_callback_def Let_def mono_resolve_def mono_alloc_def mono_well_formed_def
      settle_by_def split: promise_state.splits)

lemma mono_log_client: "mono_client_rel s (s\<lparr>m_invoked := m_invoked s @ [(MonoFn f, args)]\<rparr>)"
  unfolding mono_client_rel_def
  by (intro conjI exI [of _ "[(MonoFn f, args)]"]) (auto simp: mono_well_formed_def settle_by_None)

lemma mono_invoke_client:
  assumes "\<And>c s. mono_client_rel s (snd (sub c s))"
  shows "mono_client_rel s (snd (mono_invoke sub env l args s))"
proof (cases l)
  case (MonoFn f)
  let ?s0 = "s\<lparr>m_invoked := m_invoked s @ [(MonoFn f, args)]\<rparr>"
  have "mono_client_rel ?s0 (snd (mono_run_prog sub (mono_listener_prog env f args) ?s0))"
    using assms by (rule mono_run_prog_client)
  with mono_log_client [of s f args]
  have "mono_client_rel s (snd (mono_run_prog sub (mono_listener_prog env f args) ?s0))"
    by (rule mono_client_rel_trans)
  with MonoFn show ?thesis by (simp add: mono_invoke_def Let_def)
next
  case (MonoWaitCallback p)
  with mono_wait_callback_client [of s p args] show ?thesis by (simp add: mono_invoke_def Let_def)
qed

lemma mono_invoke_trace:
  assumes "\<And>c s. mono_client_rel s (snd (sub c s))"
  shows "\<exists>tr. m_invoked (snd (mono_invoke sub env l args s)) = m_invoked s @ (l, args) # tr"
proof (cases l)
  case (MonoFn f)
  let ?s0 = "s\<lparr>m_invoked := m_invoked s @ [(MonoFn f, args)]\<rparr>"
  from mono_run_prog_client [of sub ?s0 "mono_listener_prog env f args", OF assms]
  obtain tr where
    "m_invoked (snd (mono_run_prog sub (mono_listener_prog env f args) ?s0)) = m_invoked ?s0 @ tr"
    unfolding mono_client_rel_def by blast
  with MonoFn show ?thesis by (simp add: mono_invoke_def Let_def)
next
  case (MonoWaitCallback p)
  then show ?thesis
    by (simp add: mono_invoke_def Let_def mono_wait_callback_def mono_resolve_def mono_alloc_def)
qed

lemma mono_array_map_client:
  assumes "\<And>c s. mono_client_rel s (snd (sub c s))"
  shows "mono_client_rel s (snd (mono_array_map sub env a args n i acc s))"
proof (induction n arbitrary: i acc s)
  case 0
  show ?case by (simp add: mono_client_rel_refl)
next
  case (Suc n)
  show ?case
  proof (cases "i < length (m_heap s a)")
    case False
    with Suc.IH show ?thesis by simp
  next
    case True
    obtain o1 s1 where inv: "mono_invoke sub env (m_heap s a ! i) args s = (o1, s1)" by force
    from mono_invoke_client [of sub s env "m_heap s a ! i" args, OF assms] inv
    have 1: "mono_client_rel s s1" by simp
    show ?thesis
    proof (cases o1)
      case (Thrown e)
      with True inv 1 show ?thesis by simp
    next
      case (Returned r)
      from 1 Suc.IH [of s1 "Suc i" "acc @ [r]"]
      have "mono_client_rel s (snd (mono_array_map sub env a args n (Suc i) (acc @ [r]) s1))"
        by (rule mono_client_rel_trans)
      with True inv Returned show ?thesis by simp
    qed
  qed
qed

lemma mono_map_listeners_client:
  assumes "\<And>c s. mono_client_rel s (snd (sub c s))"
  shows "mono_client_rel s (snd (mono_map_listeners sub env args s))"
  using mono_array_map_client [of sub s env _ args _ 0 "[]", OF assms]
  by (simp add: mono_map_listeners_def)

lemma mono_nested_Suc_state:
  "snd (mono_nested (Suc d) env (MonoNestedEmit args) s)
     = snd (mono_map_listeners (mono_nested d env) env args s)"
  "snd (mono_nested (Suc d) env (MonoNestedEmitSync args) s)
     = snd (mono_map_listeners (mono_nested d env) env args s)"
  "snd (mono_nested (Suc d) env (MonoNestedCall l args) s) = snd (mono_invoke (mono_nested d env) env l args s)"
  by (simp_all split: prod.splits outcome.splits)

lemma mono_nested_client: "mono_client_rel s (snd (mono_nested d env c s))"
proof (induction d arbitrary: c s)
  case 0
  show ?case by (simp add: mono_client_rel_refl)
next
  case (Suc d)
  show ?case
  proof (cases c)
    case (MonoNestedEmit args)
    with mono_map_listeners_client [of "mono_nested d env" s env args, OF Suc.IH]
    show ?thesis by (simp only: mono_nested_Suc_state)
  next
    case (MonoNestedEmitSync args)
    with mono_map_listeners_client [of "mono_nested d env" s env args, OF Suc.IH]
    show ?thesis by (simp only: mono_nested_Suc_state)
  next
    case (MonoNestedCall l args)
    with mono_invoke_client [of "mono_nested d env" s env l args, OF Suc.IH]
    show ?thesis by (simp only: mono_nested_Suc_state)
  qed
qed

lemma mono_emitSync_client: "mono_client_rel s (snd (mono_emitSync env args s))"
  unfolding mono_emitSync_def by (rule mono_map_listeners_client) (rule mono_nested_client)

lemma mono_call_listener_client: "mono_client_rel s (snd (mono_call_listener env l args s))"
  unfolding mono_call_listener_def by (rule mono_invoke_client) (rule mono_nested_client)

lemma mono_emit_eq:
  "mono_emit env args s =
     (case mono_emitSync env args s of
        (Thrown e, s') \<Rightarrow> (Thrown e, s')
      | (Returned rs, s') \<Rightarrow> (Returned (promise_all rs), s'))"
  by (simp add: mono_emit_def mono_emitSync_def)

lemma mono_emit_state: "snd (mono_emit env args s) = snd (mono_emitSync env args s)"
  by (simp add: mono_emit_eq split: prod.splits outcome.splits)

lemma mono_emit_returned:
  "returned (fst (mono_emit env args s)) = returned (fst (mono_emitSync env args s))"
  by (simp add: mono_emit_eq returned_def split: prod.splits outcome.splits)

lemma mono_client_rel_promise:
  assumes "mono_client_rel s s'" "p < m_nwaits s"
  shows "m_promises s' p = settle_by (mono_first_call p (mono_new_calls s s')) (m_promises s p)"
    and "p < m_nwaits s'"
  using assms unfolding mono_client_rel_def mono_new_calls_def by auto

lemma mono_perform_kept:
  assumes "\<And>c s. mono_kept s (snd (sub c s))" "\<not> mono_is_write c"
  shows "mono_kept s (snd (mono_perform sub c s))"
proof (cases "mono_is_reentry c")
  case True
  with assms(1) show ?thesis by (cases c) (simp_all add: mono_is_reentry_def)
next
  case False
  from mono_perform_frame [OF False assms(2)] show ?thesis by (rule mono_frame_kept)
qed

lemma mono_run_prog_kept:
  assumes "\<And>c s. mono_kept s (snd (sub c s))" "mono_registry_only_prog pr"
  shows "mono_kept s (snd (mono_run_prog sub pr s))"
  using assms(2)
proof (induction pr arbitrary: s)
  case (MonoReturn r)
  show ?case by (simp add: mono_kept_refl)
next
  case (MonoStep c f)
  obtain e s1 where p: "mono_perform sub c s = (e, s1)" by force
  from MonoStep.prems have w: "\<not> mono_is_write c" and r: "mono_registry_only_prog (f e s1)" by simp_all
  from mono_perform_kept [of sub c s, OF assms(1) w] p have 1: "mono_kept s s1" by simp
  have "mono_kept s1 (snd (mono_run_prog sub (f e s1) s1))"
    by (rule MonoStep.IH [OF _ _ r]) (auto intro: rangeI)
  with 1 p show ?case by (auto intro: mono_kept_trans)
qed

lemma mono_invoke_kept:
  assumes "\<And>c s. mono_kept s (snd (sub c s))" "mono_registry_only env"
  shows "mono_kept s (snd (mono_invoke sub env l args s))"
proof (cases l)
  case (MonoFn f)
  let ?s0 = "s\<lparr>m_invoked := m_invoked s @ [(MonoFn f, args)]\<rparr>"
  from assms(2) have "mono_registry_only_prog (mono_listener_prog env f args)"
    by (simp add: mono_registry_only_def)
  from mono_run_prog_kept [of sub "mono_listener_prog env f args" ?s0, OF assms(1) this]
  have "mono_kept s (snd (mono_run_prog sub (mono_listener_prog env f args) ?s0))"
    by (simp add: mono_kept_def)
  with MonoFn show ?thesis by (simp add: mono_invoke_def Let_def)
next
  case (MonoWaitCallback p)
  then show ?thesis
    by (auto simp: mono_invoke_def Let_def mono_wait_callback_def mono_resolve_def mono_alloc_def
        mono_kept_def)
qed

lemma mono_call_in_order_kept:
  assumes "\<And>c s. mono_kept s (snd (sub c s))" "mono_registry_only env"
  shows "mono_kept s (snd (mono_call_in_order sub env xs args acc s))"
proof (induction xs arbitrary: acc s)
  case Nil
  show ?case by (simp add: mono_kept_refl)
next
  case (Cons l ls)
  obtain o1 s1 where inv: "mono_invoke sub env l args s = (o1, s1)" by force
  from mono_invoke_kept [of sub env s l args, OF assms] inv have 1: "mono_kept s s1" by simp
  show ?case
  proof (cases o1)
    case (Thrown e)
    with inv 1 show ?thesis by simp
  next
    case (Returned r)
    from 1 Cons.IH [of s1 "acc @ [r]"]
    have "mono_kept s (snd (mono_call_in_order sub env ls args (acc @ [r]) s1))"
      by (rule mono_kept_trans)
    with inv Returned show ?thesis by simp
  qed
qed

lemma mono_array_map_snapshot:
  assumes "\<And>c s. mono_kept s (snd (sub c s))" "mono_registry_only env"
  shows "a < m_nxt s \<Longrightarrow> i + n \<le> length xs \<Longrightarrow> m_heap s a = xs @ ys \<Longrightarrow>
     mono_array_map sub env a args n i acc s = mono_call_in_order sub env (take n (drop i xs)) args acc s"
proof (induction n arbitrary: i acc s ys)
  case 0
  show ?case by simp
next
  case (Suc n)
  from Suc.prems have i: "i < length xs" "i < length (m_heap s a)" "m_heap s a ! i = xs ! i"
    by (simp_all add: nth_append)
  obtain o1 s1 where inv: "mono_invoke sub env (xs ! i) args s = (o1, s1)" by force
  from mono_invoke_kept [of sub env s "xs ! i" args, OF assms] inv have "mono_kept s s1" by simp
  with Suc.prems(1,3) obtain zs where h1: "m_heap s1 a = xs @ zs" "a < m_nxt s1"
    by (fastforce simp: mono_kept_def)
  show ?case
  proof (cases o1)
    case (Thrown e)
    with i inv show ?thesis by (simp add: take_Suc_drop)
  next
    case (Returned r)
    from Suc.prems(2) have "Suc i + n \<le> length xs" by simp
    from Suc.IH [OF h1(2) this h1(1), of "acc @ [r]"] i inv Returned show ?thesis
      by (simp add: take_Suc_drop)
  qed
qed

lemma mono_map_listeners_snapshot:
  assumes "\<And>c s. mono_kept s (snd (sub c s))" "mono_registry_only env" "mono_well_formed s"
  shows "mono_map_listeners sub env args s = mono_call_in_order sub env (mono_list s) args [] s"
proof -
  let ?a = "listeners s" and ?xs = "mono_list s"
  from assms(3) have a: "?a < m_nxt s" by (simp add: mono_well_formed_def)
  have h: "m_heap s ?a = ?xs @ []" and n: "0 + length ?xs \<le> length ?xs"
    by (simp_all add: mono_list_def)
  have "mono_array_map sub env ?a args (length ?xs) 0 [] s
          = mono_call_in_order sub env (take (length ?xs) (drop 0 ?xs)) args [] s"
    by (rule mono_array_map_snapshot [OF assms(1,2) a n h])
  then show ?thesis by (simp add: mono_map_listeners_def mono_list_def)
qed

lemma mono_array_map_kept:
  assumes "\<And>c s. mono_kept s (snd (sub c s))" "mono_registry_only env"
  shows "mono_kept s (snd (mono_array_map sub env a args n i acc s))"
proof (induction n arbitrary: i acc s)
  case 0
  show ?case by (simp add: mono_kept_refl)
next
  case (Suc n)
  show ?case
  proof (cases "i < length (m_heap s a)")
    case False
    with Suc.IH show ?thesis by simp
  next
    case True
    obtain o1 s1 where inv: "mono_invoke sub env (m_heap s a ! i) args s = (o1, s1)" by force
    from mono_invoke_kept [of sub env s "m_heap s a ! i" args, OF assms] inv
    have 1: "mono_kept s s1" by simp
    show ?thesis
    proof (cases o1)
      case (Thrown e)
      with True inv 1 show ?thesis by simp
    next
      case (Returned r)
      from 1 Suc.IH [of s1 "Suc i" "acc @ [r]"]
      have "mono_kept s (snd (mono_array_map sub env a args n (Suc i) (acc @ [r]) s1))"
        by (rule mono_kept_trans)
      with True inv Returned show ?thesis by simp
    qed
  qed
qed

lemma mono_nested_kept:
  assumes "mono_registry_only env"
  shows "mono_kept s (snd (mono_nested d env c s))"
proof (induction d arbitrary: c s)
  case 0
  show ?case by (simp add: mono_kept_refl)
next
  case (Suc d)
  show ?case
  proof (cases c)
    case (MonoNestedEmit args)
    have "mono_kept s (snd (mono_map_listeners (mono_nested d env) env args s))"
      using mono_array_map_kept [of "mono_nested d env" env s _ args _ 0 "[]", OF Suc.IH assms]
      by (simp add: mono_map_listeners_def)
    with MonoNestedEmit show ?thesis by (simp only: mono_nested_Suc_state)
  next
    case (MonoNestedEmitSync args)
    have "mono_kept s (snd (mono_map_listeners (mono_nested d env) env args s))"
      using mono_array_map_kept [of "mono_nested d env" env s _ args _ 0 "[]", OF Suc.IH assms]
      by (simp add: mono_map_listeners_def)
    with MonoNestedEmitSync show ?thesis by (simp only: mono_nested_Suc_state)
  next
    case (MonoNestedCall l args)
    with mono_invoke_kept [of "mono_nested d env" env s l args, OF Suc.IH assms]
    show ?thesis by (simp only: mono_nested_Suc_state)
  qed
qed

lemma mono_call_in_order_snapshot:
  "mono_call_in_order (mono_nested (mono_stack_limit env) env) env xs args acc s =
     (case mono_dispatch_snapshot env xs args s of
        (Thrown e, s') \<Rightarrow> (Thrown e, s')
      | (Returned rs, s') \<Rightarrow> (Returned (acc @ rs), s'))"
proof (induction xs arbitrary: acc s)
  case Nil
  show ?case by simp
next
  case (Cons l ls)
  obtain o1 s1 where inv: "mono_call_listener env l args s = (o1, s1)" by force
  show ?case
  proof (cases o1)
    case (Thrown e)
    with inv show ?thesis by (simp add: mono_call_listener_def)
  next
    case (Returned r)
    with inv Cons.IH [of "acc @ [r]" s1] show ?thesis
      by (simp add: mono_call_listener_def split: prod.splits outcome.splits)
  qed
qed

lemma mono_emitSync_snapshot:
  assumes "mono_registry_only env" "mono_well_formed s"
  shows "mono_emitSync env args s = mono_dispatch_snapshot env (mono_list s) args s"
proof -
  have "mono_emitSync env args s
          = mono_call_in_order (mono_nested (mono_stack_limit env) env) env (mono_list s) args [] s"
    unfolding mono_emitSync_def
    by (rule mono_map_listeners_snapshot [OF mono_nested_kept [OF assms(1)] assms])
  then show ?thesis by (simp add: mono_call_in_order_snapshot split: prod.splits outcome.splits)
qed

lemma mono_perform_quiet: "\<not> mono_is_reentry c \<Longrightarrow> m_invoked (snd (mono_perform sub c s)) = m_invoked s"
proof (cases "mono_is_write c")
  case True
  then show ?thesis by (cases c) (simp_all add: mono_is_write_def)
next
  case False
  assume "\<not> mono_is_reentry c"
  from mono_perform_frame [OF this False, of s sub] show ?thesis by (simp add: mono_frame_def)
qed

lemma mono_run_prog_quiet:
  "mono_no_reentry_prog pr \<Longrightarrow> m_invoked (snd (mono_run_prog sub pr s)) = m_invoked s"
proof (induction pr arbitrary: s)
  case (MonoReturn r)
  show ?case by simp
next
  case (MonoStep c f)
  obtain e s1 where p: "mono_perform sub c s = (e, s1)" by force
  from MonoStep.prems have w: "\<not> mono_is_reentry c" and r: "mono_no_reentry_prog (f e s1)" by simp_all
  from mono_perform_quiet [OF w, of sub s] p have 1: "m_invoked s1 = m_invoked s" by simp
  have "m_invoked (snd (mono_run_prog sub (f e s1) s1)) = m_invoked s1"
    by (rule MonoStep.IH [OF _ _ r]) (auto intro: rangeI)
  with 1 p show ?case by simp
qed

lemma mono_invoke_quiet:
  assumes "mono_no_reentry env"
  shows "m_invoked (snd (mono_invoke sub env l args s)) = m_invoked s @ [(l, args)]"
proof (cases l)
  case (MonoFn f)
  from assms have "mono_no_reentry_prog (mono_listener_prog env f args)" by (simp add: mono_no_reentry_def)
  from mono_run_prog_quiet [OF this] MonoFn show ?thesis by (simp add: mono_invoke_def Let_def)
next
  case (MonoWaitCallback p)
  then show ?thesis
    by (simp add: mono_invoke_def Let_def mono_wait_callback_def mono_resolve_def mono_alloc_def)
qed

lemma mono_array_map_args:
  assumes "mono_no_reentry env"
  shows "\<exists>tr. m_invoked (snd (mono_array_map sub env a args n i acc s)) = m_invoked s @ tr \<and>
           (\<forall>x\<in>set tr. snd x = args)"
proof (induction n arbitrary: i acc s)
  case 0
  show ?case by simp
next
  case (Suc n)
  show ?case
  proof (cases "i < length (m_heap s a)")
    case False
    with Suc.IH [of "Suc i" "acc @ [Plain None]" s] show ?thesis by simp
  next
    case True
    obtain o1 s1 where inv: "mono_invoke sub env (m_heap s a ! i) args s = (o1, s1)" by force
    from mono_invoke_quiet [OF assms, of sub "m_heap s a ! i" args s] inv
    have 1: "m_invoked s1 = m_invoked s @ [(m_heap s a ! i, args)]" by simp
    show ?thesis
    proof (cases o1)
      case (Thrown e)
      with True inv 1 show ?thesis by simp
    next
      case (Returned r)
      from Suc.IH [of "Suc i" "acc @ [r]" s1] obtain tr where
        "m_invoked (snd (mono_array_map sub env a args n (Suc i) (acc @ [r]) s1)) = m_invoked s1 @ tr"
        "\<forall>x\<in>set tr. snd x = args" by blast
      with True inv Returned 1 show ?thesis by simp
    qed
  qed
qed

lemma mono_emitSync_args:
  assumes "mono_no_reentry env"
  shows "\<forall>x\<in>set (mono_new_calls s (snd (mono_emitSync env args s))). snd x = args"
  using mono_array_map_args [OF assms, of "mono_nested (mono_stack_limit env) env" "listeners s" args
      "length (m_heap s (listeners s))" 0 "[]" s]
  by (auto simp: mono_emitSync_def mono_map_listeners_def mono_new_calls_def)

lemma mono_first_call_in: "mono_first_call p tr = Some a \<Longrightarrow> \<exists>l. (l, a) \<in> set tr"
  by (induction p tr rule: mono_first_call.induct) (auto split: if_splits)

lemma mono_first_call_found: "(MonoWaitCallback p, a) \<in> set tr \<Longrightarrow> \<exists>b. mono_first_call p tr = Some b"
  by (induction p tr rule: mono_first_call.induct) auto

lemma mono_call_in_order_client:
  assumes "\<And>c s. mono_client_rel s (snd (sub c s))"
  shows "mono_client_rel s (snd (mono_call_in_order sub env xs args acc s))"
proof (induction xs arbitrary: acc s)
  case Nil
  show ?case by (simp add: mono_client_rel_refl)
next
  case (Cons y ys)
  obtain o2 s2 where i2: "mono_invoke sub env y args s = (o2, s2)" by force
  from mono_invoke_client [of sub s env y args, OF assms] i2 have c: "mono_client_rel s s2" by simp
  show ?case
  proof (cases o2)
    case (Thrown e)
    with i2 c show ?thesis by simp
  next
    case (Returned r2)
    from c Cons.IH [of s2 "acc @ [r2]"] i2 Returned show ?thesis
      by (auto intro: mono_client_rel_trans)
  qed
qed

lemma mono_call_in_order_calls_all:
  assumes "\<And>c s. mono_client_rel s (snd (sub c s))"
  shows "mono_call_in_order sub env xs args acc s = (Returned rs, s') \<Longrightarrow> l \<in> set xs \<Longrightarrow>
     (l, args) \<in> set (mono_new_calls s s')"
proof (induction xs arbitrary: acc s)
  case Nil
  then show ?case by simp
next
  case (Cons x xs)
  obtain o1 s1 where inv: "mono_invoke sub env x args s = (o1, s1)" by force
  with Cons.prems(1) obtain r where o1: "o1 = Returned r"
    and rest: "mono_call_in_order sub env xs args (acc @ [r]) s1 = (Returned rs, s')"
    by (cases o1) simp_all
  from mono_invoke_trace [of sub env x args s, OF assms] inv obtain tr1 where
    t1: "m_invoked s1 = m_invoked s @ (x, args) # tr1" by auto
  from mono_call_in_order_client [of sub s1 env xs args "acc @ [r]", OF assms] rest
  obtain tr2 where t2: "m_invoked s' = m_invoked s1 @ tr2"
    unfolding mono_client_rel_def by auto
  show ?case
  proof (cases "l = x")
    case True
    with t1 t2 show ?thesis by (simp add: mono_new_calls_def)
  next
    case False
    with Cons.prems(2) have "l \<in> set xs" by simp
    from Cons.IH [OF rest this] t1 t2 show ?thesis by (simp add: mono_new_calls_def)
  qed
qed

lemma mono_emitSync_calls_all:
  assumes "mono_registry_only env" "mono_well_formed s" "returned (fst (mono_emitSync env args s))"
    "l \<in> set (mono_list s)"
  shows "(l, args) \<in> set (mono_new_calls s (snd (mono_emitSync env args s)))"
proof -
  obtain out s' where e: "mono_emitSync env args s = (out, s')" by force
  with assms(3) obtain rs where "out = Returned rs" by (cases out) (simp_all add: returned_def)
  moreover have "mono_emitSync env args s
          = mono_call_in_order (mono_nested (mono_stack_limit env) env) env (mono_list s) args [] s"
    unfolding mono_emitSync_def
    by (rule mono_map_listeners_snapshot [OF mono_nested_kept [OF assms(1)] assms(1,2)])
  ultimately
  have "mono_call_in_order (mono_nested (mono_stack_limit env) env) env (mono_list s) args [] s
          = (Returned rs, s')"
    using e by simp
  from mono_call_in_order_calls_all [OF mono_nested_client this assms(4)] e show ?thesis by simp
qed

lemma mono_call_in_order_chain:
  "mono_call_in_order sub env xs args acc s = (Returned rs, s') \<Longrightarrow>
     \<exists>ss. length ss = Suc (length xs) \<and> ss ! 0 = s \<and> ss ! length xs = s' \<and>
       length rs = length acc + length xs \<and> take (length acc) rs = acc \<and>
       (\<forall>j<length xs. mono_invoke sub env (xs ! j) args (ss ! j)
                         = (Returned (rs ! (length acc + j)), ss ! Suc j))"
proof (induction xs arbitrary: acc s)
  case Nil
  then show ?case by (intro exI [of _ "[s]"]) auto
next
  case (Cons x xs)
  obtain o1 s1 where inv: "mono_invoke sub env x args s = (o1, s1)" by force
  with Cons.prems obtain r where o1: "o1 = Returned r"
    and rest: "mono_call_in_order sub env xs args (acc @ [r]) s1 = (Returned rs, s')"
    by (cases o1) simp_all
  from Cons.IH [OF rest] obtain ss where ss: "length ss = Suc (length xs)" "ss ! 0 = s1"
    "ss ! length xs = s'" "length rs = length (acc @ [r]) + length xs"
    "take (length (acc @ [r])) rs = acc @ [r]"
    and step: "\<And>j. j < length xs \<Longrightarrow> mono_invoke sub env (xs ! j) args (ss ! j)
                         = (Returned (rs ! (length (acc @ [r]) + j)), ss ! Suc j)"
    by blast
  from ss(5) have "take (length acc) (take (length (acc @ [r])) rs) = take (length acc) (acc @ [r])"
    by simp
  then have acc: "take (length acc) rs = acc" by (simp add: min_def)
  from ss(4,5) have "rs ! length acc = (acc @ [r]) ! length acc"
    by (metis length_append_singleton lessI nth_take)
  then have r: "rs ! length acc = r" by simp
  have "mono_invoke sub env ((x # xs) ! j) args ((s # ss) ! j)
          = (Returned (rs ! (length acc + j)), (s # ss) ! Suc j)" if "j < length (x # xs)" for j
  proof (cases j)
    case 0
    with inv o1 r ss(2) show ?thesis by simp
  next
    case (Suc j')
    with that have "j' < length xs" by simp
    from step [OF this] Suc show ?thesis by simp
  qed
  with ss acc show ?case by (intro exI [of _ "s # ss"]) auto
qed

lemma mono_array_map_chain:
  "mono_array_map sub env a args n i acc s = (Returned rs, s') \<Longrightarrow>
     \<exists>ss. length ss = Suc n \<and> ss ! 0 = s \<and> ss ! n = s' \<and>
       length rs = length acc + n \<and> take (length acc) rs = acc \<and>
       (\<forall>j<n. if i + j < length (m_heap (ss ! j) a)
               then mono_invoke sub env (m_heap (ss ! j) a ! (i + j)) args (ss ! j)
                      = (Returned (rs ! (length acc + j)), ss ! Suc j)
               else rs ! (length acc + j) = Plain None \<and> ss ! Suc j = ss ! j)"
proof (induction n arbitrary: i acc s)
  case 0
  then show ?case by (intro exI [of _ "[s]"]) auto
next
  case (Suc n)
  define r where "r = (if i < length (m_heap s a)
      then (case fst (mono_invoke sub env (m_heap s a ! i) args s) of Returned v \<Rightarrow> v | Thrown e \<Rightarrow> Plain None)
      else Plain None)"
  define s1 where "s1 = (if i < length (m_heap s a) then snd (mono_invoke sub env (m_heap s a ! i) args s) else s)"
  have first: "if i < length (m_heap s a)
      then mono_invoke sub env (m_heap s a ! i) args s = (Returned r, s1)
      else s1 = s \<and> r = Plain None"
    and rest: "mono_array_map sub env a args n (Suc i) (acc @ [r]) s1 = (Returned rs, s')"
    using Suc.prems unfolding r_def s1_def
    by (auto split: if_splits prod.splits outcome.splits)
  from Suc.IH [OF rest] obtain ss where ss: "length ss = Suc n" "ss ! 0 = s1"
    "ss ! n = s'" "length rs = length (acc @ [r]) + n"
    "take (length (acc @ [r])) rs = acc @ [r]"
    and step: "\<And>j. j < n \<Longrightarrow> (if Suc i + j < length (m_heap (ss ! j) a)
               then mono_invoke sub env (m_heap (ss ! j) a ! (Suc i + j)) args (ss ! j)
                      = (Returned (rs ! (length (acc @ [r]) + j)), ss ! Suc j)
               else rs ! (length (acc @ [r]) + j) = Plain None \<and> ss ! Suc j = ss ! j)"
    by blast
  from ss(5) have "take (length acc) (take (length (acc @ [r])) rs) = take (length acc) (acc @ [r])"
    by simp
  then have acc: "take (length acc) rs = acc" by (simp add: min_def)
  from ss(4,5) have "rs ! length acc = (acc @ [r]) ! length acc"
    by (metis length_append_singleton lessI nth_take)
  then have r: "rs ! length acc = r" by simp
  have "if i + j < length (m_heap ((s # ss) ! j) a)
        then mono_invoke sub env (m_heap ((s # ss) ! j) a ! (i + j)) args ((s # ss) ! j)
               = (Returned (rs ! (length acc + j)), (s # ss) ! Suc j)
        else rs ! (length acc + j) = Plain None \<and> (s # ss) ! Suc j = (s # ss) ! j"
    if "j < Suc n" for j
  proof (cases j)
    case 0
    with first r ss(2) show ?thesis by (auto split: if_splits)
  next
    case (Suc j')
    with that have "j' < n" by simp
    from step [OF this] Suc show ?thesis by (auto split: if_splits)
  qed
  then have all: "\<forall>j<Suc n. if i + j < length (m_heap ((s # ss) ! j) a)
        then mono_invoke sub env (m_heap ((s # ss) ! j) a ! (i + j)) args ((s # ss) ! j)
               = (Returned (rs ! (length acc + j)), (s # ss) ! Suc j)
        else rs ! (length acc + j) = Plain None \<and> (s # ss) ! Suc j = (s # ss) ! j"
    by blast
  show ?case
  proof (intro exI [of _ "s # ss"] conjI)
    show "\<forall>j<Suc n. if i + j < length (m_heap ((s # ss) ! j) a)
        then mono_invoke sub env (m_heap ((s # ss) ! j) a ! (i + j)) args ((s # ss) ! j)
               = (Returned (rs ! (length acc + j)), (s # ss) ! Suc j)
        else rs ! (length acc + j) = Plain None \<and> (s # ss) ! Suc j = (s # ss) ! j"
      by (rule all)
  qed (use ss acc in simp_all)
qed

section \<open>The examples, evaluated\<close>

lemma ex_two_emitSync:
  "emitSync ex_env ''x'' [7] ex_two = (out, s') \<Longrightarrow>
     out = Returned [Awaitable (Resolves 5 (Some 11)), Plain (Some 2)] \<and>
     invoked s' = [(Fn 1, [7]), (Fn 2, [7])] \<and> listener_list s' ''x'' = [Fn 3, Fn 1]"
  by (auto simp add: emitSync_def map_listeners_def ex_two_def new_emitter_def invoke_def ex_env_def Let_def addListener_def
      removeListener_def truthy_def maxCount_def alloc_def listener_list_def getListeners_def)

lemma ex_popping_emitSync:
  "emitSync ex_env_wild ''x'' [7] ex_popping = (out, s') \<Longrightarrow>
     out = Returned [Plain (Some 4), Plain None] \<and> invoked s' = [(Fn 4, [7])] \<and> listener_list s' ''x'' = [Fn 4]"
  by (auto simp add: emitSync_def map_listeners_def ex_popping_def new_emitter_def invoke_def ex_env_wild_def Let_def
      alloc_def listener_list_def getListeners_def)

lemma ex_waiting_eq:
  "ex_waiting = new_emitter\<lparr>heap := (\<lambda>_. [])(0 := [WaitCallback ''x'' 0]), nxt := 1,
     events := [''x'' \<mapsto> 0], nwaits := 1\<rparr>"
  by (simp add: ex_waiting_def wait_def Let_def addListener_def new_emitter_def truthy_def maxCount_def
      alloc_def fun_upd_idem)

lemma ex_mono_waiting_eq:
  "ex_mono_waiting = new_mono\<lparr>m_heap := (\<lambda>_. [])(0 := [MonoWaitCallback 0]), m_nwaits := 1\<rparr>"
  by (simp add: ex_mono_waiting_def mono_wait_def Let_def new_mono_def fun_upd_idem)

lemma ex_waiting_behind_eq:
  "ex_waiting_behind f =
     new_emitter\<lparr>heap := (\<lambda>_. [])(0 := [WaitCallback ''x'' 0], 1 := [Fn f, WaitCallback ''x'' 0]),
       nxt := 2, events := [''x'' \<mapsto> 1], nwaits := 1\<rparr>"
  by (simp add: ex_waiting_behind_def ex_waiting_eq addListener_def new_emitter_def truthy_def
      maxCount_def alloc_def getListeners_def listenerCount_def)

lemma ex_mono_waiting_behind_eq:
  "ex_mono_waiting_behind f =
     new_mono\<lparr>m_heap := (\<lambda>_. [])(0 := [MonoFn f, MonoWaitCallback 0]), m_nwaits := 1\<rparr>"
  by (simp add: ex_mono_waiting_behind_def mono_addListener_def mono_wait_def Let_def new_mono_def
      truthy_def fun_upd_idem)

lemma ex_waiting_behind_emitSync:
  "emitSync ex_env_wild ''x'' [7] (ex_waiting_behind 6) = (out, s') \<Longrightarrow>
     out = Returned [Plain (Some 6), Plain None] \<and>
     invoked s' = [(Fn 6, [7]), (Fn 6, [99]), (WaitCallback ''x'' 0, [99]), (WaitCallback ''x'' 0, [7])] \<and>
     promises s' 0 = Fulfilled [99]"
  by (auto simp add: emitSync_def map_listeners_def ex_waiting_behind_eq new_emitter_def invoke_def ex_env_wild_def
      Let_def alloc_def listener_list_def getListeners_def numeral_2_eq_2 wait_callback_def resolve_def
      removeListener_def split: prod.splits outcome.splits)

lemma ex_waiting_behind_thrower:
  "emitSync ex_env ''x'' [7] (ex_waiting_behind 9) = (out, s') \<Longrightarrow>
     out = Thrown (ListenerError 9) \<and> invoked s' = [(Fn 9, [7])] \<and> promises s' 0 = Pending"
  by (auto simp add: emitSync_def map_listeners_def ex_waiting_behind_eq new_emitter_def invoke_def ex_env_def
      Let_def)

lemma ex_mono_waiting_behind_thrower:
  "mono_emitSync ex_mono_env [7] (ex_mono_waiting_behind 9) = (out, s') \<Longrightarrow>
     out = Thrown (ListenerError 9) \<and> m_invoked s' = [(MonoFn 9, [7])] \<and> m_promises s' 0 = Pending"
  by (auto simp add: mono_emitSync_def mono_map_listeners_def ex_mono_waiting_behind_eq new_mono_def
      mono_invoke_def ex_mono_env_def Let_def)

lemma ex_mono_two_emitSync:
  "mono_emitSync ex_mono_env [7] ex_mono_two = (out, s') \<Longrightarrow>
     out = Returned [Awaitable (Resolves 5 (Some 11)), Plain (Some 2)] \<and>
     m_invoked s' = [(MonoFn 1, [7]), (MonoFn 2, [7])] \<and> mono_list s' = [MonoFn 1, MonoFn 3]"
  by (auto simp add: mono_emitSync_def mono_map_listeners_def ex_mono_two_def new_mono_def mono_invoke_def
      ex_mono_env_def Let_def mono_addListener_def mono_removeListener_def truthy_def mono_alloc_def
      mono_list_def)

lemma ex_mono_popping_emitSync:
  "mono_emitSync ex_mono_env_wild [7] ex_mono_popping = (out, s') \<Longrightarrow>
     out = Returned [Plain (Some 4), Plain None] \<and> m_invoked s' = [(MonoFn 4, [7])] \<and>
     mono_list s' = [MonoFn 4]"
  by (auto simp add: mono_emitSync_def mono_map_listeners_def ex_mono_popping_def new_mono_def
      mono_invoke_def ex_mono_env_wild_def Let_def mono_list_def)

lemma ex_mono_waiting_behind_emitSync:
  "mono_emitSync ex_mono_env_wild [7] (ex_mono_waiting_behind 6) = (out, s') \<Longrightarrow>
     out = Returned [Plain (Some 6), Plain None] \<and>
     m_invoked s' = [(MonoFn 6, [7]), (MonoFn 6, [99]), (MonoWaitCallback 0, [99]), (MonoWaitCallback 0, [7])] \<and>
     m_promises s' 0 = Fulfilled [99]"
  by (auto simp add: mono_emitSync_def mono_map_listeners_def ex_mono_waiting_behind_eq new_mono_def
      mono_invoke_def ex_mono_env_wild_def Let_def mono_list_def numeral_2_eq_2 mono_wait_callback_def
      mono_resolve_def mono_alloc_def split: prod.splits outcome.splits)

lemma ex_env_plain: "registry_only ex_env" "no_reentry ex_env"
  by (auto simp add: registry_only_def no_reentry_def ex_env_def is_write_def is_reentry_def
      split: reply.splits)

lemma ex_mono_env_plain: "mono_registry_only ex_mono_env" "mono_no_reentry ex_mono_env"
  by (auto simp add: mono_registry_only_def mono_no_reentry_def ex_mono_env_def mono_is_write_def
      mono_is_reentry_def split: reply.splits)

section \<open>The limit of listeners\<close>

text \<open>
  C1. The limit check is not the one of the claim. With the limit 1 on the event
  \<open>x\<close> of an EventEmitter, a first and then a second listener are registered and the
  count is 2; with the limit 2 on a MonoEmitter, one call registers three listeners.
  No call throws.
\<close>

theorem addListener_admits_beyond_limit:
  "(case addListener ''x'' [Fn 0]
           ((new_emitter :: (string, nat) emitter)\<lparr>maxListeners := [''x'' \<mapsto> 1]\<rparr>) of
      Inl e \<Rightarrow> False
    | Inr s \<Rightarrow> (case addListener ''x'' [Fn 1] s of
                  Inl e \<Rightarrow> False
                | Inr s' \<Rightarrow> listenerCount s' ''x'' = 2)) \<and>
   (case mono_addListener [MonoFn 0, MonoFn 1, MonoFn 2]
           ((new_mono :: nat mono)\<lparr>maxListenersCount := Some 2\<rparr>) of
      Inl e \<Rightarrow> False
    | Inr m \<Rightarrow> listenersCount m = 3)"
  by (simp add: addListener_def new_emitter_def truthy_def js_gt_def maxCount_def
      listenerCount_def getListeners_def alloc_def mono_addListener_def new_mono_def js_lt_def
      listenersCount_def)




section \<open>Where a registration lands\<close>

text \<open>
  C3, as stated, fails for the MonoEmitter, which appends: after \<open>MonoFn 0\<close>, the
  listener \<open>MonoFn 1\<close> lands behind it.
\<close>

theorem mono_addListener_appends:
  "(case mono_addListener [MonoFn 0] (new_mono :: nat mono) of
      Inl e \<Rightarrow> False
    | Inr m \<Rightarrow> (case mono_addListener [MonoFn 1] m of
                  Inl e \<Rightarrow> False
                | Inr m' \<Rightarrow> mono_list m' = [MonoFn 0, MonoFn 1] \<and>
                            mono_list m' \<noteq> [MonoFn 1] @ mono_list m))"
  by (simp add: mono_addListener_def new_mono_def truthy_def mono_list_def)

text \<open>
  C3, amended. A successful registration adds the listeners as one group in their order:
  the EventEmitter puts the group before the listeners already registered for the event,
  the MonoEmitter behind them.
\<close>

theorem addListener_group_position:
  "(addListener k ls s = Inr s' \<longrightarrow> listener_list s' k = ls @ listener_list s k) \<and>
   (mono_addListener ms m = Inr m' \<longrightarrow> mono_list m' = mono_list m @ ms)"
proof (intro conjI impI)
  assume "addListener k ls s = Inr s'"
  from addListener_Inr [OF this] show "listener_list s' k = ls @ listener_list s k"
    by (simp add: listener_list_eq)
next
  assume "mono_addListener ms m = Inr m'"
  then show "mono_list m' = mono_list m @ ms"
    by (auto simp: mono_addListener_def mono_list_def split: if_splits)
qed

theorem addListener_group_position_witness:
  "(\<exists>s'. addListener ''x'' [Fn 2, Fn 3] ex_emitter = Inr s' \<and>
          listener_list s' ''x'' = [Fn 2, Fn 3, Fn 1]) \<and>
   (\<exists>m'. mono_addListener [MonoFn 2, MonoFn 3] ex_mono = Inr m' \<and>
          mono_list m' = [MonoFn 1, MonoFn 2, MonoFn 3])"
proof -
  obtain s' where a: "addListener ''x'' [Fn 2, Fn 3] ex_emitter = Inr s'"
    by (simp add: addListener_def ex_emitter_def new_emitter_def truthy_def maxCount_def alloc_def)
  obtain m' where b: "mono_addListener [MonoFn 2, MonoFn 3] ex_mono = Inr m'"
    by (simp add: mono_addListener_def ex_mono_def new_mono_def truthy_def)
  have c: "listener_list ex_emitter ''x'' = [Fn 1]"
    by (simp add: listener_list_eq ex_emitter_def new_emitter_def)
  have d: "mono_list ex_mono = [MonoFn 1]"
    by (simp add: mono_list_def ex_mono_def new_mono_def)
  from a b c d
    addListener_group_position [of "''x''" "[Fn 2, Fn 3]" ex_emitter s' "[MonoFn 2, MonoFn 3]" ex_mono m']
  show ?thesis by simp
qed

section \<open>Waiting with a timeout\<close>

text \<open>The firing of a timer changes neither the promises nor the listeners.\<close>

lemma timer_fires_keeps:
  "promises (timer_fires p s) = promises s \<and> events (timer_fires p s) = events s \<and>
   heap (timer_fires p s) = heap s"
  by (simp add: timer_fires_def timer_callback_def)

lemma mono_timer_fires_keeps:
  "m_promises (mono_timer_fires p s) = m_promises s \<and> listeners (mono_timer_fires p s) = listeners s \<and>
   m_heap (mono_timer_fires p s) = m_heap s"
  by (simp add: mono_timer_fires_def mono_timer_callback_def)

text \<open>
  C2. The timer callback only throws, and it throws inside the event loop. After
  \<open>wait\<close> with the timeout 50 on a new emitter and the firing of the timer with no
  emission in between, the promise is still pending, the error is an uncaught one, and
  the one-shot callback is still registered: the count is 1. Both emitters.
\<close>

theorem wait_timeout_leaves_promise_pending:
  "(case wait ''x'' (Some 50) (new_emitter :: (string, nat) emitter) of
      (p, s) \<Rightarrow> promises (timer_fires p s) p = Pending \<and>
                uncaught (timer_fires p s) = [Timeout] \<and>
                listener_list (timer_fires p s) ''x'' = [WaitCallback ''x'' p] \<and>
                listenerCount (timer_fires p s) ''x'' = 1) \<and>
   (case mono_wait (Some 50) (new_mono :: nat mono) of
      (p, m) \<Rightarrow> m_promises (mono_timer_fires p m) p = Pending \<and>
                m_uncaught (mono_timer_fires p m) = [Timeout] \<and>
                mono_list (mono_timer_fires p m) = [MonoWaitCallback p] \<and>
                listenersCount (mono_timer_fires p m) = 1)"
  by (simp add: wait_def addListener_def new_emitter_def truthy_def js_gt_def maxCount_def
      listenerCount_def getListeners_def alloc_def timer_fires_def timer_callback_def
      listener_list_def mono_wait_def new_mono_def mono_timer_fires_def mono_timer_callback_def
      mono_list_def listenersCount_def Let_def)

section \<open>Clearing\<close>

lemma apply_ops_maxListeners: "apply_ops ops s = Inr s' \<Longrightarrow> maxListeners s' = maxListeners s"
proof (induction ops arbitrary: s)
  case Nil
  then show ?case by simp
next
  case (Cons op ops)
  show ?case
  proof (cases op)
    case (Register k ls)
    with Cons.prems obtain s1 where a: "addListener k ls s = Inr s1" and r: "apply_ops ops s1 = Inr s'"
      by (auto split: sum.splits)
    from addListener_Inr [OF a] have "maxListeners s1 = maxListeners s" by simp
    with Cons.IH [OF r] show ?thesis by simp
  next
    case (Unregister k l)
    with Cons.prems have "apply_ops ops (removeListener k l s) = Inr s'" by simp
    from Cons.IH [OF this] show ?thesis by (simp add: removeListener_eq)
  qed
qed

lemma mono_apply_ops_maxListenersCount:
  "mono_apply_ops ops s = Inr s' \<Longrightarrow> maxListenersCount s' = maxListenersCount s"
proof (induction ops arbitrary: s)
  case Nil
  then show ?case by simp
next
  case (Cons op ops)
  show ?case
  proof (cases op)
    case (MonoRegister ls)
    with Cons.prems obtain s1 where a: "mono_addListener ls s = Inr s1"
      and r: "mono_apply_ops ops s1 = Inr s'"
      by (auto split: sum.splits)
    from mono_addListener_Inr [OF a] have "maxListenersCount s1 = maxListenersCount s" by simp
    with Cons.IH [OF r] show ?thesis by simp
  next
    case (MonoUnregister l)
    with Cons.prems have "mono_apply_ops ops (mono_removeListener l s) = Inr s'" by simp
    from Cons.IH [OF this] show ?thesis by (simp add: mono_removeListener_eq)
  qed
qed

text \<open>
  Claim C10. \<open>clear\<close> leaves every event without listeners and the limits as they
  were. After any sequence of registrations and removals that follows the \<open>clear\<close>,
  the limits are still those from before it, and a registration is rejected exactly as
  these limits say: on the emitter when the limit of the event, stored before the
  \<open>clear\<close>, is exceeded by the count; on the mono emitter when \<open>maxListenersCount\<close>,
  as it was before the \<open>clear\<close>, is nonzero and below the count plus one.
\<close>

theorem clear_keeps_limits:
  "listenerCount (clear s) k = 0 \<and> maxListeners (clear s) = maxListeners s \<and>
   (apply_ops ops (clear s) = Inr s2 \<longrightarrow>
      maxListeners s2 = maxListeners s \<and>
      (\<forall>e. (addListener k ls s2 = Inl e) =
            (e = LimitExceeded \<and>
             (\<exists>n. maxListeners s k = Some n \<and> n \<noteq> - 1 \<and> n < int (listenerCount s2 k))))) \<and>
   listenersCount (mono_clear m) = 0 \<and> maxListenersCount (mono_clear m) = maxListenersCount m \<and>
   (mono_apply_ops mops (mono_clear m) = Inr m2 \<longrightarrow>
      maxListenersCount m2 = maxListenersCount m \<and>
      (\<forall>e. (mono_addListener ms m2 = Inl e) =
            (e = LimitExceeded \<and>
             (\<exists>n. maxListenersCount m = Some n \<and> n \<noteq> 0 \<and> n < int (listenersCount m2) + 1))))"
proof (intro conjI impI allI)
  assume a: "apply_ops ops (clear s) = Inr s2"
  from apply_ops_maxListeners [OF a] show m: "maxListeners s2 = maxListeners s" by (simp add: clear_def)
  fix e
  from m show "(addListener k ls s2 = Inl e) =
            (e = LimitExceeded \<and>
             (\<exists>n. maxListeners s k = Some n \<and> n \<noteq> - 1 \<and> n < int (listenerCount s2 k)))"
    by (simp add: addListener_fails_iff)
next
  assume a: "mono_apply_ops mops (mono_clear m) = Inr m2"
  from mono_apply_ops_maxListenersCount [OF a] show m: "maxListenersCount m2 = maxListenersCount m"
    by (simp add: mono_clear_eq)
  fix e
  from m show "(mono_addListener ms m2 = Inl e) =
            (e = LimitExceeded \<and>
             (\<exists>n. maxListenersCount m = Some n \<and> n \<noteq> 0 \<and> n < int (listenersCount m2) + 1))"
    by (simp add: mono_addListener_fails_iff)
qed (simp_all add: clear_def listenerCount_def getListeners_def alloc_def mono_clear_def
    mono_alloc_def listenersCount_def)

text \<open>Claim C10 on an example: the limit 1, a \<open>clear\<close>, then registrations until the
  limit set before the \<open>clear\<close> rejects one.\<close>

theorem clear_keeps_limits_witness:
  "(\<exists>s2. apply_ops [Register ''x'' [Fn 2], Register ''x'' [Fn 3]]
             (clear (ex_emitter\<lparr>maxListeners := [''x'' \<mapsto> 1]\<rparr>)) = Inr s2 \<and>
          maxListeners s2 ''x'' = Some 1 \<and> listenerCount s2 ''x'' = 2 \<and>
          addListener ''x'' [Fn 4] s2 = Inl LimitExceeded) \<and>
   (\<exists>m2. mono_apply_ops [MonoRegister [MonoFn 2]]
             (mono_clear (ex_mono\<lparr>maxListenersCount := Some 1\<rparr>)) = Inr m2 \<and>
          maxListenersCount m2 = Some 1 \<and> listenersCount m2 = 1 \<and>
          mono_addListener [MonoFn 3] m2 = Inl LimitExceeded)"
proof -
  let ?s = "ex_emitter\<lparr>maxListeners := [''x'' \<mapsto> 1]\<rparr>"
  let ?m = "ex_mono\<lparr>maxListenersCount := Some 1\<rparr>"
  obtain s2 where a: "apply_ops [Register ''x'' [Fn 2], Register ''x'' [Fn 3]] (clear ?s) = Inr s2"
    and c: "listenerCount s2 ''x'' = 2"
    by (simp add: addListener_def clear_def ex_emitter_def new_emitter_def truthy_def js_gt_def
        maxCount_def listenerCount_def getListeners_def alloc_def)
  obtain m2 where b: "mono_apply_ops [MonoRegister [MonoFn 2]] (mono_clear ?m) = Inr m2"
    and d: "listenersCount m2 = 1"
    by (simp add: mono_addListener_def mono_clear_def mono_alloc_def ex_mono_def new_mono_def
        truthy_def js_lt_def listenersCount_def)
  have l: "maxListeners ?s ''x'' = Some 1" "maxListenersCount ?m = Some 1" by simp_all
  from a b c d l
    clear_keeps_limits [of ?s "''x''" "[Register ''x'' [Fn 2], Register ''x'' [Fn 3]]" s2 "[Fn 4]"
      ?m "[MonoRegister [MonoFn 2]]" m2 "[MonoFn 3]"]
  have "maxListeners s2 ''x'' = Some 1" "addListener ''x'' [Fn 4] s2 = Inl LimitExceeded"
    "maxListenersCount m2 = Some 1" "mono_addListener [MonoFn 3] m2 = Inl LimitExceeded"
    by simp_all
  with a b c d show ?thesis by blast
qed

section \<open>Synchronous and asynchronous dispatch\<close>

lemma await_all_Some: "await_all rs = Some vs \<Longrightarrow> map settled rs = map Some vs"
proof (induction rs arbitrary: vs)
  case Nil
  then show ?case by simp
next
  case (Cons r rs)
  then show ?case by (auto split: option.splits)
qed

lemma promise_all_Fulfilled: "promise_all rs = Fulfilled vs \<Longrightarrow> map settled rs = map Some vs"
  by (auto simp: promise_all_def await_all_Some split: list.splits option.splits)

text \<open>The results of a dispatch that returns, call by call: on the array as it is when
  each index has its turn, and on the list captured at the start.\<close>

lemma emitSync_chain_live:
  assumes "emitSync env k args s = (Returned rs, s')" "events s k = Some a"
  shows "length rs = length (heap s a) \<and>
     (\<exists>ss. length ss = Suc (length rs) \<and> ss ! 0 = s \<and> ss ! length rs = s' \<and>
        (\<forall>j<length rs.
           if j < length (heap (ss ! j) a)
           then call_listener env (heap (ss ! j) a ! j) args (ss ! j) = (Returned (rs ! j), ss ! Suc j)
           else rs ! j = Plain None \<and> ss ! Suc j = ss ! j))"
proof -
  from assms
  have "array_map (nested (stack_limit env) env) env a args (length (heap s a)) 0 [] s = (Returned rs, s')"
    by (simp add: emitSync_def map_listeners_def)
  from array_map_chain [OF this]
  have "\<exists>ss. length ss = Suc (length (heap s a)) \<and> ss ! 0 = s \<and> ss ! length (heap s a) = s' \<and>
       length rs = length (heap s a) \<and>
       (\<forall>j<length (heap s a). if j < length (heap (ss ! j) a)
               then call_listener env (heap (ss ! j) a ! j) args (ss ! j) = (Returned (rs ! j), ss ! Suc j)
               else rs ! j = Plain None \<and> ss ! Suc j = ss ! j)"
    by (simp add: call_listener_def cong: if_cong split del: if_split)
  then obtain ss where "length ss = Suc (length (heap s a))" "ss ! 0 = s"
    "ss ! length (heap s a) = s'" "length rs = length (heap s a)"
    "\<forall>j<length (heap s a). if j < length (heap (ss ! j) a)
               then call_listener env (heap (ss ! j) a ! j) args (ss ! j) = (Returned (rs ! j), ss ! Suc j)
               else rs ! j = Plain None \<and> ss ! Suc j = ss ! j"
    by blast
  then show ?thesis
    by (intro conjI exI [of _ ss]) (simp_all cong: if_cong split del: if_split)
qed

lemma emitSync_chain_list:
  assumes "emitSync env k args s = (Returned rs, s')" "registry_only env" "well_formed s"
  shows "length rs = length (listener_list s k) \<and>
     (\<exists>ss. length ss = Suc (length rs) \<and> ss ! 0 = s \<and> ss ! length rs = s' \<and>
        (\<forall>j<length rs.
           call_listener env (listener_list s k ! j) args (ss ! j) = (Returned (rs ! j), ss ! Suc j)))"
proof -
  have "emitSync env k args s
          = call_in_order (nested (stack_limit env) env) env (listener_list s k) args [] s"
    unfolding emitSync_def
    by (rule map_listeners_snapshot [OF nested_kept [OF assms(2)] assms(2,3)])
  with assms(1)
  have "call_in_order (nested (stack_limit env) env) env (listener_list s k) args [] s = (Returned rs, s')"
    by simp
  from call_in_order_chain [OF this]
  have "\<exists>ss. length ss = Suc (length (listener_list s k)) \<and> ss ! 0 = s \<and>
       ss ! length (listener_list s k) = s' \<and> length rs = length (listener_list s k) \<and>
       (\<forall>j<length (listener_list s k).
          call_listener env (listener_list s k ! j) args (ss ! j) = (Returned (rs ! j), ss ! Suc j))"
    by (simp add: call_listener_def)
  then obtain ss where "length ss = Suc (length (listener_list s k))" "ss ! 0 = s"
    "ss ! length (listener_list s k) = s'" "length rs = length (listener_list s k)"
    "\<forall>j<length (listener_list s k).
          call_listener env (listener_list s k ! j) args (ss ! j) = (Returned (rs ! j), ss ! Suc j)"
    by blast
  then show ?thesis by (intro conjI exI [of _ ss]) simp_all
qed

lemma emitSync_trace:
  assumes "emitSync env k args s = (Returned rs, s')" "registry_only env" "well_formed s"
    "no_reentry env"
  shows "new_calls s s' = map (\<lambda>l. (l, args)) (listener_list s k)"
proof -
  have "emitSync env k args s
          = call_in_order (nested (stack_limit env) env) env (listener_list s k) args [] s"
    unfolding emitSync_def
    by (rule map_listeners_snapshot [OF nested_kept [OF assms(2)] assms(2,3)])
  with assms(1)
  have c: "call_in_order (nested (stack_limit env) env) env (listener_list s k) args [] s = (Returned rs, s')"
    by simp
  have "call_in_order sub env xs args acc s = (Returned rs, s') \<Longrightarrow>
          invoked s' = invoked s @ map (\<lambda>l. (l, args)) xs" for sub xs acc s
  proof (induction xs arbitrary: acc s)
    case Nil
    then show ?case by simp
  next
    case (Cons x xs)
    obtain o1 s1 where inv: "invoke sub env x args s = (o1, s1)" by force
    from invoke_quiet [OF assms(4), of sub x args s] inv
    have 1: "invoked s1 = invoked s @ [(x, args)]" by simp
    from inv Cons.prems obtain r where "o1 = Returned r"
      and "call_in_order sub env xs args (acc @ [r]) s1 = (Returned rs, s')"
      by (cases o1) auto
    from Cons.IH [OF this(2)] 1 show ?case by simp
  qed
  from this [OF c] show ?thesis by (simp add: new_calls_def)
qed

lemma mono_emitSync_chain_live:
  assumes "mono_emitSync env args s = (Returned rs, s')"
  shows "length rs = length (mono_list s) \<and>
     (\<exists>ss. length ss = Suc (length rs) \<and> ss ! 0 = s \<and> ss ! length rs = s' \<and>
        (\<forall>j<length rs.
           if j < length (m_heap (ss ! j) (listeners s))
           then mono_call_listener env (m_heap (ss ! j) (listeners s) ! j) args (ss ! j)
                  = (Returned (rs ! j), ss ! Suc j)
           else rs ! j = Plain None \<and> ss ! Suc j = ss ! j))"
proof -
  from assms
  have "mono_array_map (mono_nested (mono_stack_limit env) env) env (listeners s) args
          (length (m_heap s (listeners s))) 0 [] s = (Returned rs, s')"
    by (simp add: mono_emitSync_def mono_map_listeners_def)
  from mono_array_map_chain [OF this]
  have "\<exists>ss. length ss = Suc (length (mono_list s)) \<and> ss ! 0 = s \<and>
       ss ! length (mono_list s) = s' \<and> length rs = length (mono_list s) \<and>
       (\<forall>j<length (mono_list s). if j < length (m_heap (ss ! j) (listeners s))
               then mono_call_listener env (m_heap (ss ! j) (listeners s) ! j) args (ss ! j)
                      = (Returned (rs ! j), ss ! Suc j)
               else rs ! j = Plain None \<and> ss ! Suc j = ss ! j)"
    by (simp add: mono_call_listener_def mono_list_def cong: if_cong split del: if_split)
  then obtain ss where "length ss = Suc (length (mono_list s))" "ss ! 0 = s"
    "ss ! length (mono_list s) = s'" "length rs = length (mono_list s)"
    "\<forall>j<length (mono_list s). if j < length (m_heap (ss ! j) (listeners s))
               then mono_call_listener env (m_heap (ss ! j) (listeners s) ! j) args (ss ! j)
                      = (Returned (rs ! j), ss ! Suc j)
               else rs ! j = Plain None \<and> ss ! Suc j = ss ! j"
    by blast
  then show ?thesis
    by (intro conjI exI [of _ ss]) (simp_all cong: if_cong split del: if_split)
qed

lemma mono_emitSync_chain_list:
  assumes "mono_emitSync env args s = (Returned rs, s')" "mono_registry_only env" "mono_well_formed s"
  shows "length rs = length (mono_list s) \<and>
     (\<exists>ss. length ss = Suc (length rs) \<and> ss ! 0 = s \<and> ss ! length rs = s' \<and>
        (\<forall>j<length rs.
           mono_call_listener env (mono_list s ! j) args (ss ! j) = (Returned (rs ! j), ss ! Suc j)))"
proof -
  have "mono_emitSync env args s
          = mono_call_in_order (mono_nested (mono_stack_limit env) env) env (mono_list s) args [] s"
    unfolding mono_emitSync_def
    by (rule mono_map_listeners_snapshot [OF mono_nested_kept [OF assms(2)] assms(2,3)])
  with assms(1)
  have "mono_call_in_order (mono_nested (mono_stack_limit env) env) env (mono_list s) args [] s
          = (Returned rs, s')"
    by simp
  from mono_call_in_order_chain [OF this]
  have "\<exists>ss. length ss = Suc (length (mono_list s)) \<and> ss ! 0 = s \<and>
       ss ! length (mono_list s) = s' \<and> length rs = length (mono_list s) \<and>
       (\<forall>j<length (mono_list s).
          mono_call_listener env (mono_list s ! j) args (ss ! j) = (Returned (rs ! j), ss ! Suc j))"
    by (simp add: mono_call_listener_def)
  then obtain ss where "length ss = Suc (length (mono_list s))" "ss ! 0 = s"
    "ss ! length (mono_list s) = s'" "length rs = length (mono_list s)"
    "\<forall>j<length (mono_list s).
          mono_call_listener env (mono_list s ! j) args (ss ! j) = (Returned (rs ! j), ss ! Suc j)"
    by blast
  then show ?thesis by (intro conjI exI [of _ ss]) simp_all
qed

lemma mono_emitSync_trace:
  assumes "mono_emitSync env args s = (Returned rs, s')" "mono_registry_only env" "mono_well_formed s"
    "mono_no_reentry env"
  shows "mono_new_calls s s' = map (\<lambda>l. (l, args)) (mono_list s)"
proof -
  have "mono_emitSync env args s
          = mono_call_in_order (mono_nested (mono_stack_limit env) env) env (mono_list s) args [] s"
    unfolding mono_emitSync_def
    by (rule mono_map_listeners_snapshot [OF mono_nested_kept [OF assms(2)] assms(2,3)])
  with assms(1)
  have c: "mono_call_in_order (mono_nested (mono_stack_limit env) env) env (mono_list s) args [] s
             = (Returned rs, s')"
    by simp
  have "mono_call_in_order sub env xs args acc s = (Returned rs, s') \<Longrightarrow>
          m_invoked s' = m_invoked s @ map (\<lambda>l. (l, args)) xs" for sub xs acc s
  proof (induction xs arbitrary: acc s)
    case Nil
    then show ?case by simp
  next
    case (Cons x xs)
    obtain o1 s1 where inv: "mono_invoke sub env x args s = (o1, s1)" by force
    from mono_invoke_quiet [OF assms(4), of sub x args s] inv
    have 1: "m_invoked s1 = m_invoked s @ [(x, args)]" by simp
    from inv Cons.prems obtain r where "o1 = Returned r"
      and "mono_call_in_order sub env xs args (acc @ [r]) s1 = (Returned rs, s')"
      by (cases o1) auto
    from Cons.IH [OF this(2)] 1 show ?case by simp
  qed
  from this [OF c] show ?thesis by (simp add: mono_new_calls_def)
qed

text \<open>
  Claim C7. \<open>emit\<close> and \<open>emitSync\<close> on the same state, event and arguments end in the
  same state, hence with the same trace of listener calls. When a listener throws, both
  throw the same exception. Otherwise \<open>emitSync\<close> returns an array \<open>rs\<close> with one
  slot for each listener the array held at the start, and the calls form a chain of
  states: the result at index \<open>j\<close> is what the \<open>j\<close>-th call returned, made in the state
  the call before it left, on the element the array holds at index \<open>j\<close> at that moment
  (a slot whose index the array has lost stays empty). For listeners that leave the
  arrays alone this element is the \<open>j\<close>-th listener of the list at the start, and
  without re-entrant calls the trace is that list in order. \<open>emit\<close> returns the promise
  of \<open>Promise.all\<close> over the same \<open>rs\<close>; when it is fulfilled with \<open>vs\<close>, the value
  at each index of \<open>vs\<close> is what the element of \<open>rs\<close> at that index settled to. Both
  emitters.
\<close>

theorem emit_and_emitSync_agree:
  "snd (emit env k args s) = snd (emitSync env k args s) \<and>
   (case emitSync env k args s of
      (Thrown e, s') \<Rightarrow> fst (emit env k args s) = Thrown e
    | (Returned rs, s') \<Rightarrow>
        fst (emit env k args s) = Returned (promise_all rs) \<and>
        (\<forall>vs. promise_all rs = Fulfilled vs \<longrightarrow> map settled rs = map Some vs) \<and>
        (case events s k of
           None \<Rightarrow> rs = [] \<and> s' = s
         | Some a \<Rightarrow>
             length rs = length (heap s a) \<and>
             (\<exists>ss. length ss = Suc (length rs) \<and> ss ! 0 = s \<and> ss ! length rs = s' \<and>
                (\<forall>j<length rs.
                   if j < length (heap (ss ! j) a)
                   then call_listener env (heap (ss ! j) a ! j) args (ss ! j)
                          = (Returned (rs ! j), ss ! Suc j)
                   else rs ! j = Plain None \<and> ss ! Suc j = ss ! j))) \<and>
        (registry_only env \<and> well_formed s \<longrightarrow>
           length rs = length (listener_list s k) \<and>
           (\<exists>ss. length ss = Suc (length rs) \<and> ss ! 0 = s \<and> ss ! length rs = s' \<and>
              (\<forall>j<length rs.
                 call_listener env (listener_list s k ! j) args (ss ! j)
                   = (Returned (rs ! j), ss ! Suc j))) \<and>
           (no_reentry env \<longrightarrow> new_calls s s' = map (\<lambda>l. (l, args)) (listener_list s k)))) \<and>
   snd (mono_emit menv args t) = snd (mono_emitSync menv args t) \<and>
   (case mono_emitSync menv args t of
      (Thrown e, t') \<Rightarrow> fst (mono_emit menv args t) = Thrown e
    | (Returned rs, t') \<Rightarrow>
        fst (mono_emit menv args t) = Returned (promise_all rs) \<and>
        (\<forall>vs. promise_all rs = Fulfilled vs \<longrightarrow> map settled rs = map Some vs) \<and>
        length rs = length (mono_list t) \<and>
        (\<exists>ss. length ss = Suc (length rs) \<and> ss ! 0 = t \<and> ss ! length rs = t' \<and>
           (\<forall>j<length rs.
              if j < length (m_heap (ss ! j) (listeners t))
              then mono_call_listener menv (m_heap (ss ! j) (listeners t) ! j) args (ss ! j)
                     = (Returned (rs ! j), ss ! Suc j)
              else rs ! j = Plain None \<and> ss ! Suc j = ss ! j)) \<and>
        (mono_registry_only menv \<and> mono_well_formed t \<longrightarrow>
           (\<exists>ss. length ss = Suc (length rs) \<and> ss ! 0 = t \<and> ss ! length rs = t' \<and>
              (\<forall>j<length rs.
                 mono_call_listener menv (mono_list t ! j) args (ss ! j)
                   = (Returned (rs ! j), ss ! Suc j))) \<and>
           (mono_no_reentry menv \<longrightarrow> mono_new_calls t t' = map (\<lambda>l. (l, args)) (mono_list t))))"
proof (intro conjI)
  show "snd (emit env k args s) = snd (emitSync env k args s)" by (rule emit_state)
  show "snd (mono_emit menv args t) = snd (mono_emitSync menv args t)" by (rule mono_emit_state)
  obtain out s' where e: "emitSync env k args s = (out, s')" by force
  show "case emitSync env k args s of
      (Thrown e, s') \<Rightarrow> fst (emit env k args s) = Thrown e
    | (Returned rs, s') \<Rightarrow>
        fst (emit env k args s) = Returned (promise_all rs) \<and>
        (\<forall>vs. promise_all rs = Fulfilled vs \<longrightarrow> map settled rs = map Some vs) \<and>
        (case events s k of
           None \<Rightarrow> rs = [] \<and> s' = s
         | Some a \<Rightarrow>
             length rs = length (heap s a) \<and>
             (\<exists>ss. length ss = Suc (length rs) \<and> ss ! 0 = s \<and> ss ! length rs = s' \<and>
                (\<forall>j<length rs.
                   if j < length (heap (ss ! j) a)
                   then call_listener env (heap (ss ! j) a ! j) args (ss ! j)
                          = (Returned (rs ! j), ss ! Suc j)
                   else rs ! j = Plain None \<and> ss ! Suc j = ss ! j))) \<and>
        (registry_only env \<and> well_formed s \<longrightarrow>
           length rs = length (listener_list s k) \<and>
           (\<exists>ss. length ss = Suc (length rs) \<and> ss ! 0 = s \<and> ss ! length rs = s' \<and>
              (\<forall>j<length rs.
                 call_listener env (listener_list s k ! j) args (ss ! j)
                   = (Returned (rs ! j), ss ! Suc j))) \<and>
           (no_reentry env \<longrightarrow> new_calls s s' = map (\<lambda>l. (l, args)) (listener_list s k)))"
  proof (cases out)
    case (Thrown err)
    with e show ?thesis by (simp add: emit_eq)
  next
    case (Returned rs)
    with e have r: "emitSync env k args s = (Returned rs, s')" by simp
    have 1: "fst (emit env k args s) = Returned (promise_all rs)" using r by (simp add: emit_eq)
    have 2: "\<forall>vs. promise_all rs = Fulfilled vs \<longrightarrow> map settled rs = map Some vs"
      by (simp add: promise_all_Fulfilled)
    have 3: "case events s k of
           None \<Rightarrow> rs = [] \<and> s' = s
         | Some a \<Rightarrow>
             length rs = length (heap s a) \<and>
             (\<exists>ss. length ss = Suc (length rs) \<and> ss ! 0 = s \<and> ss ! length rs = s' \<and>
                (\<forall>j<length rs.
                   if j < length (heap (ss ! j) a)
                   then call_listener env (heap (ss ! j) a ! j) args (ss ! j)
                          = (Returned (rs ! j), ss ! Suc j)
                   else rs ! j = Plain None \<and> ss ! Suc j = ss ! j))"
    proof (cases "events s k")
      case None
      with r show ?thesis by (simp add: emitSync_def map_listeners_def)
    next
      case (Some a)
      from emitSync_chain_live [OF r Some, THEN conjunct1]
        emitSync_chain_live [OF r Some, THEN conjunct2] Some
      show ?thesis by (simp cong: if_cong split del: if_split)
    qed
    have 4: "registry_only env \<and> well_formed s \<longrightarrow>
           length rs = length (listener_list s k) \<and>
           (\<exists>ss. length ss = Suc (length rs) \<and> ss ! 0 = s \<and> ss ! length rs = s' \<and>
              (\<forall>j<length rs.
                 call_listener env (listener_list s k ! j) args (ss ! j)
                   = (Returned (rs ! j), ss ! Suc j))) \<and>
           (no_reentry env \<longrightarrow> new_calls s s' = map (\<lambda>l. (l, args)) (listener_list s k))"
      using emitSync_chain_list [OF r] emitSync_trace [OF r] by blast
    show ?thesis unfolding r prod.case outcome.case by (intro conjI 1 2 3 4)
  qed
  obtain mout t' where m: "mono_emitSync menv args t = (mout, t')" by force
  show "case mono_emitSync menv args t of
      (Thrown e, t') \<Rightarrow> fst (mono_emit menv args t) = Thrown e
    | (Returned rs, t') \<Rightarrow>
        fst (mono_emit menv args t) = Returned (promise_all rs) \<and>
        (\<forall>vs. promise_all rs = Fulfilled vs \<longrightarrow> map settled rs = map Some vs) \<and>
        length rs = length (mono_list t) \<and>
        (\<exists>ss. length ss = Suc (length rs) \<and> ss ! 0 = t \<and> ss ! length rs = t' \<and>
           (\<forall>j<length rs.
              if j < length (m_heap (ss ! j) (listeners t))
              then mono_call_listener menv (m_heap (ss ! j) (listeners t) ! j) args (ss ! j)
                     = (Returned (rs ! j), ss ! Suc j)
              else rs ! j = Plain None \<and> ss ! Suc j = ss ! j)) \<and>
        (mono_registry_only menv \<and> mono_well_formed t \<longrightarrow>
           (\<exists>ss. length ss = Suc (length rs) \<and> ss ! 0 = t \<and> ss ! length rs = t' \<and>
              (\<forall>j<length rs.
                 mono_call_listener menv (mono_list t ! j) args (ss ! j)
                   = (Returned (rs ! j), ss ! Suc j))) \<and>
           (mono_no_reentry menv \<longrightarrow> mono_new_calls t t' = map (\<lambda>l. (l, args)) (mono_list t)))"
  proof (cases mout)
    case (Thrown err)
    with m show ?thesis by (simp add: mono_emit_eq)
  next
    case (Returned rs)
    with m have r: "mono_emitSync menv args t = (Returned rs, t')" by simp
    have 1: "fst (mono_emit menv args t) = Returned (promise_all rs)" using r by (simp add: mono_emit_eq)
    have 2: "\<forall>vs. promise_all rs = Fulfilled vs \<longrightarrow> map settled rs = map Some vs"
      by (simp add: promise_all_Fulfilled)
    note 3 = mono_emitSync_chain_live [OF r, THEN conjunct1]
      mono_emitSync_chain_live [OF r, THEN conjunct2]
    have 4: "mono_registry_only menv \<and> mono_well_formed t \<longrightarrow>
           (\<exists>ss. length ss = Suc (length rs) \<and> ss ! 0 = t \<and> ss ! length rs = t' \<and>
              (\<forall>j<length rs.
                 mono_call_listener menv (mono_list t ! j) args (ss ! j)
                   = (Returned (rs ! j), ss ! Suc j))) \<and>
           (mono_no_reentry menv \<longrightarrow> mono_new_calls t t' = map (\<lambda>l. (l, args)) (mono_list t))"
      using mono_emitSync_chain_list [OF r] mono_emitSync_trace [OF r] by blast
    show ?thesis unfolding r prod.case outcome.case by (intro conjI 1 2 3 4)
  qed
qed

text \<open>Claim C7 on an example: two listeners, the first returning an awaitable.\<close>

theorem emit_and_emitSync_agree_witness:
  "registry_only ex_env \<and> no_reentry ex_env \<and> well_formed ex_two \<and>
   listener_list ex_two ''x'' = [Fn 1, Fn 2] \<and>
   fst (emitSync ex_env ''x'' [7] ex_two) = Returned [Awaitable (Resolves 5 (Some 11)), Plain (Some 2)] \<and>
   fst (emit ex_env ''x'' [7] ex_two) = Returned (Fulfilled [Some 11, Some 2]) \<and>
   new_calls ex_two (snd (emit ex_env ''x'' [7] ex_two)) = [(Fn 1, [7]), (Fn 2, [7])] \<and>
   mono_registry_only ex_mono_env \<and> mono_no_reentry ex_mono_env \<and> mono_well_formed ex_mono_two \<and>
   mono_list ex_mono_two = [MonoFn 1, MonoFn 2] \<and>
   fst (mono_emitSync ex_mono_env [7] ex_mono_two)
     = Returned [Awaitable (Resolves 5 (Some 11)), Plain (Some 2)] \<and>
   fst (mono_emit ex_mono_env [7] ex_mono_two) = Returned (Fulfilled [Some 11, Some 2]) \<and>
   mono_new_calls ex_mono_two (snd (mono_emit ex_mono_env [7] ex_mono_two))
     = [(MonoFn 1, [7]), (MonoFn 2, [7])]"
proof -
  let ?rs = "[Awaitable (Resolves 5 (Some 11)), Plain (Some (2::nat))]"
  obtain out s' where e: "emitSync ex_env ''x'' [7] ex_two = (out, s')" by force
  obtain mout ms' where me: "mono_emitSync ex_mono_env [7] ex_mono_two = (mout, ms')" by force
  note r = ex_two_emitSync [OF e] and mr = ex_mono_two_emitSync [OF me]
  have p: "promise_all ?rs = Fulfilled [Some 11, Some 2]"
    by (simp add: promise_all_def)
  have w: "well_formed ex_two" "mono_well_formed ex_mono_two"
    "listener_list ex_two ''x'' = [Fn 1, Fn 2]" "mono_list ex_mono_two = [MonoFn 1, MonoFn 2]"
    by (simp_all add: well_formed_def mono_well_formed_def ex_two_def ex_mono_two_def new_emitter_def
        new_mono_def listener_list_def getListeners_def mono_list_def)
  from e me r mr p w ex_env_plain ex_mono_env_plain
    emit_and_emitSync_agree [of ex_env "''x''" "[7]" ex_two ex_mono_env ex_mono_two]
  show ?thesis by simp
qed

section \<open>What a dispatch calls\<close>

lemma dispatch_snapshot_thrown:
  "dispatch_snapshot env xs args s = (Thrown e, s') \<Longrightarrow>
     \<exists>m<length xs. \<exists>rs sm. dispatch_snapshot env (take m xs) args s = (Returned rs, sm) \<and>
        call_listener env (xs ! m) args sm = (Thrown e, s')"
proof (induction xs arbitrary: s)
  case Nil
  then show ?case by simp
next
  case (Cons x xs)
  obtain o1 s1 where inv: "call_listener env x args s = (o1, s1)" by force
  show ?case
  proof (cases o1)
    case (Thrown e1)
    with inv Cons.prems have "call_listener env ((x # xs) ! 0) args s = (Thrown e, s')" by simp
    moreover have "dispatch_snapshot env (take 0 (x # xs)) args s = (Returned [], s)" by simp
    ultimately show ?thesis by (intro exI [of _ 0]) blast
  next
    case (Returned r)
    with inv Cons.prems have "dispatch_snapshot env xs args s1 = (Thrown e, s')"
      by (simp split: prod.splits outcome.splits)
    from Cons.IH [OF this] obtain m rs sm where m: "m < length xs"
      and d: "dispatch_snapshot env (take m xs) args s1 = (Returned rs, sm)"
      and c: "call_listener env (xs ! m) args sm = (Thrown e, s')" by blast
    from inv Returned d
    have "dispatch_snapshot env (take (Suc m) (x # xs)) args s = (Returned (r # rs), sm)" by simp
    with m c show ?thesis by (intro exI [of _ "Suc m"]) auto
  qed
qed

lemma dispatch_snapshot_returned:
  "dispatch_snapshot env xs args s = (Returned rs, s') \<Longrightarrow> length rs = length xs"
proof (induction xs arbitrary: s rs)
  case Nil
  then show ?case by simp
next
  case (Cons x xs)
  then show ?case by (auto split: prod.splits outcome.splits)
qed

lemma dispatch_snapshot_trace:
  assumes "no_reentry env"
  shows "dispatch_snapshot env xs args s = (Returned rs, s') \<Longrightarrow>
     invoked s' = invoked s @ map (\<lambda>l. (l, args)) xs"
proof (induction xs arbitrary: s rs)
  case Nil
  then show ?case by simp
next
  case (Cons x xs)
  obtain o1 s1 where inv: "call_listener env x args s = (o1, s1)" by force
  from invoke_quiet [OF assms, of "nested (stack_limit env) env" x args s] inv
  have 1: "invoked s1 = invoked s @ [(x, args)]" by (simp add: call_listener_def)
  from inv Cons.prems obtain r rs' where "o1 = Returned r"
    and "dispatch_snapshot env xs args s1 = (Returned rs', s')"
    by (cases o1) (auto split: prod.splits outcome.splits)
  from Cons.IH [OF this(2)] 1 show ?case by simp
qed

lemma mono_dispatch_snapshot_thrown:
  "mono_dispatch_snapshot env xs args s = (Thrown e, s') \<Longrightarrow>
     \<exists>m<length xs. \<exists>rs sm. mono_dispatch_snapshot env (take m xs) args s = (Returned rs, sm) \<and>
        mono_call_listener env (xs ! m) args sm = (Thrown e, s')"
proof (induction xs arbitrary: s)
  case Nil
  then show ?case by simp
next
  case (Cons x xs)
  obtain o1 s1 where inv: "mono_call_listener env x args s = (o1, s1)" by force
  show ?case
  proof (cases o1)
    case (Thrown e1)
    with inv Cons.prems have "mono_call_listener env ((x # xs) ! 0) args s = (Thrown e, s')" by simp
    moreover have "mono_dispatch_snapshot env (take 0 (x # xs)) args s = (Returned [], s)" by simp
    ultimately show ?thesis by (intro exI [of _ 0]) blast
  next
    case (Returned r)
    with inv Cons.prems have "mono_dispatch_snapshot env xs args s1 = (Thrown e, s')"
      by (simp split: prod.splits outcome.splits)
    from Cons.IH [OF this] obtain m rs sm where m: "m < length xs"
      and d: "mono_dispatch_snapshot env (take m xs) args s1 = (Returned rs, sm)"
      and c: "mono_call_listener env (xs ! m) args sm = (Thrown e, s')" by blast
    from inv Returned d
    have "mono_dispatch_snapshot env (take (Suc m) (x # xs)) args s = (Returned (r # rs), sm)" by simp
    with m c show ?thesis by (intro exI [of _ "Suc m"]) auto
  qed
qed

lemma mono_dispatch_snapshot_returned:
  "mono_dispatch_snapshot env xs args s = (Returned rs, s') \<Longrightarrow> length rs = length xs"
proof (induction xs arbitrary: s rs)
  case Nil
  then show ?case by simp
next
  case (Cons x xs)
  then show ?case by (auto split: prod.splits outcome.splits)
qed

lemma mono_dispatch_snapshot_trace:
  assumes "mono_no_reentry env"
  shows "mono_dispatch_snapshot env xs args s = (Returned rs, s') \<Longrightarrow>
     m_invoked s' = m_invoked s @ map (\<lambda>l. (l, args)) xs"
proof (induction xs arbitrary: s rs)
  case Nil
  then show ?case by simp
next
  case (Cons x xs)
  obtain o1 s1 where inv: "mono_call_listener env x args s = (o1, s1)" by force
  from mono_invoke_quiet [OF assms, of "mono_nested (mono_stack_limit env) env" x args s] inv
  have 1: "m_invoked s1 = m_invoked s @ [(x, args)]" by (simp add: mono_call_listener_def)
  from inv Cons.prems obtain r rs' where "o1 = Returned r"
    and "mono_dispatch_snapshot env xs args s1 = (Returned rs', s')"
    by (cases o1) (auto split: prod.splits outcome.splits)
  from Cons.IH [OF this(2)] 1 show ?case by simp
qed

text \<open>What a dispatch over a captured list does, case by case.\<close>

lemma dispatch_snapshot_cases:
  "case dispatch_snapshot env xs args s of
     (Returned rs, s') \<Rightarrow>
       length rs = length xs \<and>
       (no_reentry env \<longrightarrow> new_calls s s' = map (\<lambda>l. (l, args)) xs)
   | (Thrown e, s') \<Rightarrow>
       (\<exists>m<length xs. \<exists>rs sm.
          dispatch_snapshot env (take m xs) args s = (Returned rs, sm) \<and>
          call_listener env (xs ! m) args sm = (Thrown e, s') \<and>
          (no_reentry env \<longrightarrow> new_calls s s' = map (\<lambda>l. (l, args)) (take (Suc m) xs)))"
proof -
  obtain out s' where d: "dispatch_snapshot env xs args s = (out, s')" by force
  show ?thesis
  proof (cases out)
    case (Returned rs)
    with d dispatch_snapshot_returned [of env xs args s rs s']
      dispatch_snapshot_trace [of env xs args s rs s']
    show ?thesis by (simp add: new_calls_def)
  next
    case (Thrown e)
    with d dispatch_snapshot_thrown [of env xs args s e s'] obtain m rs sm where m: "m < length xs"
      and p: "dispatch_snapshot env (take m xs) args s = (Returned rs, sm)"
      and c: "call_listener env (xs ! m) args sm = (Thrown e, s')" by blast
    have "new_calls s s' = map (\<lambda>l. (l, args)) (take (Suc m) xs)" if n: "no_reentry env"
    proof -
      from dispatch_snapshot_trace [OF n p]
      have 1: "invoked sm = invoked s @ map (\<lambda>l. (l, args)) (take m xs)" .
      from invoke_quiet [OF n, of "nested (stack_limit env) env" "xs ! m" args sm] c
      have "invoked s' = invoked sm @ [(xs ! m, args)]" by (simp add: call_listener_def)
      with 1 m show ?thesis by (simp add: new_calls_def take_Suc_conv_app_nth)
    qed
    with m p c have "\<exists>m<length xs. \<exists>rs sm.
          dispatch_snapshot env (take m xs) args s = (Returned rs, sm) \<and>
          call_listener env (xs ! m) args sm = (Thrown e, s') \<and>
          (no_reentry env \<longrightarrow> new_calls s s' = map (\<lambda>l. (l, args)) (take (Suc m) xs))"
      by blast
    with d Thrown show ?thesis by simp
  qed
qed

lemma mono_dispatch_snapshot_cases:
  "case mono_dispatch_snapshot env xs args s of
     (Returned rs, s') \<Rightarrow>
       length rs = length xs \<and>
       (mono_no_reentry env \<longrightarrow> mono_new_calls s s' = map (\<lambda>l. (l, args)) xs)
   | (Thrown e, s') \<Rightarrow>
       (\<exists>m<length xs. \<exists>rs sm.
          mono_dispatch_snapshot env (take m xs) args s = (Returned rs, sm) \<and>
          mono_call_listener env (xs ! m) args sm = (Thrown e, s') \<and>
          (mono_no_reentry env \<longrightarrow> mono_new_calls s s' = map (\<lambda>l. (l, args)) (take (Suc m) xs)))"
proof -
  obtain out s' where d: "mono_dispatch_snapshot env xs args s = (out, s')" by force
  show ?thesis
  proof (cases out)
    case (Returned rs)
    with d mono_dispatch_snapshot_returned [of env xs args s rs s']
      mono_dispatch_snapshot_trace [of env xs args s rs s']
    show ?thesis by (simp add: mono_new_calls_def)
  next
    case (Thrown e)
    with d mono_dispatch_snapshot_thrown [of env xs args s e s'] obtain m rs sm where m: "m < length xs"
      and p: "mono_dispatch_snapshot env (take m xs) args s = (Returned rs, sm)"
      and c: "mono_call_listener env (xs ! m) args sm = (Thrown e, s')" by blast
    have "mono_new_calls s s' = map (\<lambda>l. (l, args)) (take (Suc m) xs)" if n: "mono_no_reentry env"
    proof -
      from mono_dispatch_snapshot_trace [OF n p]
      have 1: "m_invoked sm = m_invoked s @ map (\<lambda>l. (l, args)) (take m xs)" .
      from mono_invoke_quiet [OF n, of "mono_nested (mono_stack_limit env) env" "xs ! m" args sm] c
      have "m_invoked s' = m_invoked sm @ [(xs ! m, args)]" by (simp add: mono_call_listener_def)
      with 1 m show ?thesis by (simp add: mono_new_calls_def take_Suc_conv_app_nth)
    qed
    with m p c have "\<exists>m<length xs. \<exists>rs sm.
          mono_dispatch_snapshot env (take m xs) args s = (Returned rs, sm) \<and>
          mono_call_listener env (xs ! m) args sm = (Thrown e, s') \<and>
          (mono_no_reentry env \<longrightarrow> mono_new_calls s s' = map (\<lambda>l. (l, args)) (take (Suc m) xs))"
      by blast
    with d Thrown show ?thesis by simp
  qed
qed

text \<open>
  Claim C8, refuted as stated. The listener \<open>Fn 4\<close> pops the array that
  \<open>getListeners\<close> returns. The dispatch started with the listeners \<open>Fn 4\<close>,
  \<open>Fn 5\<close>; it returns, it has called \<open>Fn 4\<close> only, and the slot of \<open>Fn 5\<close> in the
  result is empty. The same holds for the mono emitter and its \<open>listeners\<close> getter.
\<close>

theorem dispatch_skips_popped_listener:
  "listener_list ex_popping ''x'' = [Fn 4, Fn 5] \<and>
   fst (emitSync ex_env_wild ''x'' [7] ex_popping) = Returned [Plain (Some 4), Plain None] \<and>
   new_calls ex_popping (snd (emitSync ex_env_wild ''x'' [7] ex_popping)) = [(Fn 4, [7])] \<and>
   fst (emit ex_env_wild ''x'' [7] ex_popping) = Returned (Fulfilled [Some 4, None]) \<and>
   new_calls ex_popping (snd (emit ex_env_wild ''x'' [7] ex_popping)) = [(Fn 4, [7])] \<and>
   mono_list ex_mono_popping = [MonoFn 4, MonoFn 5] \<and>
   fst (mono_emitSync ex_mono_env_wild [7] ex_mono_popping) = Returned [Plain (Some 4), Plain None] \<and>
   mono_new_calls ex_mono_popping (snd (mono_emitSync ex_mono_env_wild [7] ex_mono_popping))
     = [(MonoFn 4, [7])]"
proof -
  obtain out s' where e: "emitSync ex_env_wild ''x'' [7] ex_popping = (out, s')" by force
  obtain mout m' where m: "mono_emitSync ex_mono_env_wild [7] ex_mono_popping = (mout, m')" by force
  have 0: "invoked ex_popping = []" "m_invoked ex_mono_popping = []"
    "listener_list ex_popping ''x'' = [Fn 4, Fn 5]" "mono_list ex_mono_popping = [MonoFn 4, MonoFn 5]"
    by (simp_all add: ex_popping_def ex_mono_popping_def new_emitter_def new_mono_def
        listener_list_def getListeners_def mono_list_def)
  from ex_popping_emitSync [OF e] ex_mono_popping_emitSync [OF m] e m 0 show ?thesis
    by (simp add: emit_eq new_calls_def mono_new_calls_def promise_all_def)
qed

text \<open>
  Claim C8, amended. For an application whose listeners leave the arrays they get from
  the accessor alone, \<open>emitSync\<close> and \<open>emit\<close> on either emitter are the dispatch
  over the list captured when the call starts: each listener of that list is called in
  turn, in the state the calls before it left, whatever the listeners register or
  remove meanwhile, and whatever they emit; the first listener that throws ends the
  dispatch with its exception, the listeners before it have returned and those behind
  it are not called. Without re-entrant calls the listeners called are exactly the
  captured list, or its part up to the listener that threw, in that order.
\<close>

theorem dispatch_invokes_snapshot:
  "(registry_only env \<and> well_formed s \<longrightarrow>
      emitSync env k args s = dispatch_snapshot env (listener_list s k) args s \<and>
      emit env k args s =
        (case dispatch_snapshot env (listener_list s k) args s of
           (Thrown e, s') \<Rightarrow> (Thrown e, s')
         | (Returned rs, s') \<Rightarrow> (Returned (promise_all rs), s')) \<and>
      (case emitSync env k args s of
         (Returned rs, s') \<Rightarrow>
           length rs = length (listener_list s k) \<and>
           (no_reentry env \<longrightarrow> new_calls s s' = map (\<lambda>l. (l, args)) (listener_list s k))
       | (Thrown e, s') \<Rightarrow>
           (\<exists>m<length (listener_list s k). \<exists>rs sm.
              dispatch_snapshot env (take m (listener_list s k)) args s = (Returned rs, sm) \<and>
              call_listener env (listener_list s k ! m) args sm = (Thrown e, s') \<and>
              (no_reentry env \<longrightarrow>
                 new_calls s s' = map (\<lambda>l. (l, args)) (take (Suc m) (listener_list s k)))))) \<and>
   (mono_registry_only menv \<and> mono_well_formed t \<longrightarrow>
      mono_emitSync menv args t = mono_dispatch_snapshot menv (mono_list t) args t \<and>
      mono_emit menv args t =
        (case mono_dispatch_snapshot menv (mono_list t) args t of
           (Thrown e, t') \<Rightarrow> (Thrown e, t')
         | (Returned rs, t') \<Rightarrow> (Returned (promise_all rs), t')) \<and>
      (case mono_emitSync menv args t of
         (Returned rs, t') \<Rightarrow>
           length rs = length (mono_list t) \<and>
           (mono_no_reentry menv \<longrightarrow> mono_new_calls t t' = map (\<lambda>l. (l, args)) (mono_list t))
       | (Thrown e, t') \<Rightarrow>
           (\<exists>m<length (mono_list t). \<exists>rs tm.
              mono_dispatch_snapshot menv (take m (mono_list t)) args t = (Returned rs, tm) \<and>
              mono_call_listener menv (mono_list t ! m) args tm = (Thrown e, t') \<and>
              (mono_no_reentry menv \<longrightarrow>
                 mono_new_calls t t' = map (\<lambda>l. (l, args)) (take (Suc m) (mono_list t))))))"
proof (intro conjI impI)
  assume a: "registry_only env \<and> well_formed s"
  then show 1: "emitSync env k args s = dispatch_snapshot env (listener_list s k) args s"
    by (simp add: emitSync_snapshot)
  then show "emit env k args s =
        (case dispatch_snapshot env (listener_list s k) args s of
           (Thrown e, s') \<Rightarrow> (Thrown e, s')
         | (Returned rs, s') \<Rightarrow> (Returned (promise_all rs), s'))"
    by (simp add: emit_eq)
  from dispatch_snapshot_cases [where env = env and xs = "listener_list s k" and args = args and s = s]
  show "case emitSync env k args s of
         (Returned rs, s') \<Rightarrow>
           length rs = length (listener_list s k) \<and>
           (no_reentry env \<longrightarrow> new_calls s s' = map (\<lambda>l. (l, args)) (listener_list s k))
       | (Thrown e, s') \<Rightarrow>
           (\<exists>m<length (listener_list s k). \<exists>rs sm.
              dispatch_snapshot env (take m (listener_list s k)) args s = (Returned rs, sm) \<and>
              call_listener env (listener_list s k ! m) args sm = (Thrown e, s') \<and>
              (no_reentry env \<longrightarrow>
                 new_calls s s' = map (\<lambda>l. (l, args)) (take (Suc m) (listener_list s k))))"
    unfolding 1 .
next
  assume a: "mono_registry_only menv \<and> mono_well_formed t"
  then show 1: "mono_emitSync menv args t = mono_dispatch_snapshot menv (mono_list t) args t"
    by (simp add: mono_emitSync_snapshot)
  then show "mono_emit menv args t =
        (case mono_dispatch_snapshot menv (mono_list t) args t of
           (Thrown e, t') \<Rightarrow> (Thrown e, t')
         | (Returned rs, t') \<Rightarrow> (Returned (promise_all rs), t'))"
    by (simp add: mono_emit_eq)
  from mono_dispatch_snapshot_cases [where env = menv and xs = "mono_list t" and args = args and s = t]
  show "case mono_emitSync menv args t of
         (Returned rs, t') \<Rightarrow>
           length rs = length (mono_list t) \<and>
           (mono_no_reentry menv \<longrightarrow> mono_new_calls t t' = map (\<lambda>l. (l, args)) (mono_list t))
       | (Thrown e, t') \<Rightarrow>
           (\<exists>m<length (mono_list t). \<exists>rs tm.
              mono_dispatch_snapshot menv (take m (mono_list t)) args t = (Returned rs, tm) \<and>
              mono_call_listener menv (mono_list t ! m) args tm = (Thrown e, t') \<and>
              (mono_no_reentry menv \<longrightarrow>
                 mono_new_calls t t' = map (\<lambda>l. (l, args)) (take (Suc m) (mono_list t))))"
    unfolding 1 .
qed

text \<open>Claim C8 on an example: \<open>Fn 1\<close> registers \<open>Fn 3\<close> and removes \<open>Fn 2\<close> while it
  runs; the dispatch still calls \<open>Fn 1\<close>, then \<open>Fn 2\<close>, and the list afterwards is
  another one.\<close>

theorem dispatch_invokes_snapshot_witness:
  "registry_only ex_env \<and> no_reentry ex_env \<and> well_formed ex_two \<and>
   listener_list ex_two ''x'' = [Fn 1, Fn 2] \<and>
   emitSync ex_env ''x'' [7] ex_two = dispatch_snapshot ex_env [Fn 1, Fn 2] [7] ex_two \<and>
   fst (emitSync ex_env ''x'' [7] ex_two) = Returned [Awaitable (Resolves 5 (Some 11)), Plain (Some 2)] \<and>
   new_calls ex_two (snd (emitSync ex_env ''x'' [7] ex_two)) = [(Fn 1, [7]), (Fn 2, [7])] \<and>
   listener_list (snd (emitSync ex_env ''x'' [7] ex_two)) ''x'' = [Fn 3, Fn 1] \<and>
   mono_registry_only ex_mono_env \<and> mono_no_reentry ex_mono_env \<and> mono_well_formed ex_mono_two \<and>
   mono_list ex_mono_two = [MonoFn 1, MonoFn 2] \<and>
   mono_emitSync ex_mono_env [7] ex_mono_two
     = mono_dispatch_snapshot ex_mono_env [MonoFn 1, MonoFn 2] [7] ex_mono_two \<and>
   fst (mono_emitSync ex_mono_env [7] ex_mono_two)
     = Returned [Awaitable (Resolves 5 (Some 11)), Plain (Some 2)] \<and>
   mono_new_calls ex_mono_two (snd (mono_emitSync ex_mono_env [7] ex_mono_two))
     = [(MonoFn 1, [7]), (MonoFn 2, [7])] \<and>
   mono_list (snd (mono_emitSync ex_mono_env [7] ex_mono_two)) = [MonoFn 1, MonoFn 3]"
proof -
  obtain out s' where e: "emitSync ex_env ''x'' [7] ex_two = (out, s')" by force
  obtain mout ms' where me: "mono_emitSync ex_mono_env [7] ex_mono_two = (mout, ms')" by force
  note r = ex_two_emitSync [OF e] and mr = ex_mono_two_emitSync [OF me]
  have w: "well_formed ex_two" "mono_well_formed ex_mono_two"
    "listener_list ex_two ''x'' = [Fn 1, Fn 2]" "mono_list ex_mono_two = [MonoFn 1, MonoFn 2]"
    by (simp_all add: well_formed_def mono_well_formed_def ex_two_def ex_mono_two_def new_emitter_def
        new_mono_def listener_list_def getListeners_def mono_list_def)
  from e r have e': "emitSync ex_env ''x'' [7] ex_two
      = (Returned [Awaitable (Resolves 5 (Some 11)), Plain (Some 2)], s')" by simp
  from me mr have me': "mono_emitSync ex_mono_env [7] ex_mono_two
      = (Returned [Awaitable (Resolves 5 (Some 11)), Plain (Some 2)], ms')" by simp
  note t = dispatch_invokes_snapshot [where env = ex_env and s = ex_two and k = "''x''"
      and args = "[7]" and menv = ex_mono_env and t = ex_mono_two, unfolded e' me']
  from t w ex_env_plain ex_mono_env_plain
  have d: "dispatch_snapshot ex_env [Fn 1, Fn 2] [7] ex_two
             = (Returned [Awaitable (Resolves 5 (Some 11)), Plain (Some 2)], s')"
    "new_calls ex_two s' = [(Fn 1, [7]), (Fn 2, [7])]"
    "mono_dispatch_snapshot ex_mono_env [MonoFn 1, MonoFn 2] [7] ex_mono_two
             = (Returned [Awaitable (Resolves 5 (Some 11)), Plain (Some 2)], ms')"
    "mono_new_calls ex_mono_two ms' = [(MonoFn 1, [7]), (MonoFn 2, [7])]"
    by simp_all
  from d e' me' r mr w ex_env_plain ex_mono_env_plain show ?thesis by simp
qed

section \<open>Waiting for the next emission\<close>

lemma first_call_None: "(\<forall>k' a. (WaitCallback k' p, a) \<notin> set tr) \<Longrightarrow> first_call p tr = None"
  by (induction p tr rule: first_call.induct) auto

lemma dispatch_snapshot_prefix_throws:
  "m < length xs \<Longrightarrow> dispatch_snapshot env (take m xs) args s = (Returned rs, sm) \<Longrightarrow>
     call_listener env (xs ! m) args sm = (Thrown e, s') \<Longrightarrow>
     dispatch_snapshot env xs args s = (Thrown e, s')"
proof (induction xs arbitrary: m s rs)
  case Nil
  then show ?case by simp
next
  case (Cons x xs)
  show ?case
  proof (cases m)
    case 0
    with Cons.prems show ?thesis by simp
  next
    case (Suc m')
    obtain o1 s1 where inv: "call_listener env x args s = (o1, s1)" by force
    from Cons.prems(2) Suc inv obtain r rs' where o1: "o1 = Returned r"
      and d: "dispatch_snapshot env (take m' xs) args s1 = (Returned rs', sm)"
      by (cases o1) (auto split: prod.splits outcome.splits)
    from Cons.prems(1,3) Suc have "m' < length xs" "call_listener env (xs ! m') args sm = (Thrown e, s')"
      by simp_all
    from Cons.IH [OF this(1) d this(2)] inv o1 show ?thesis by simp
  qed
qed

lemma emitSync_promise:
  assumes "p < nwaits s"
  shows "promises (snd (emitSync env k args s)) p
           = settle_by (first_call p (new_calls s (snd (emitSync env k args s)))) (promises s p)"
    and "p < nwaits (snd (emitSync env k args s))"
  using client_rel_promise [OF emitSync_client [of s env k args] assms] by blast+

lemma call_listener_promise:
  assumes "p < nwaits s"
  shows "promises (snd (call_listener env l args s)) p
           = settle_by (first_call p (new_calls s (snd (call_listener env l args s)))) (promises s p)"
  using client_rel_promise [OF call_listener_client [of s env l args] assms] by blast

lemma emitSync_well_formed: "well_formed s \<Longrightarrow> well_formed (snd (emitSync env k args s))"
  using emitSync_client [of s env k args] by (simp add: client_rel_def)

lemma emitSync_fulfils:
  assumes "registry_only env" "well_formed s" "p < nwaits s" "promises s p = Pending"
    "WaitCallback k p \<in> set (listener_list s k)" "returned (fst (emitSync env k args s))"
  shows "\<exists>a l. promises (snd (emitSync env k args s)) p = Fulfilled a \<and>
           (l, a) \<in> set (new_calls s (snd (emitSync env k args s)))"
    and "no_reentry env \<Longrightarrow> promises (snd (emitSync env k args s)) p = Fulfilled args"
proof -
  let ?tr = "new_calls s (snd (emitSync env k args s))"
  from emitSync_calls_all [OF assms(1,2,6,5)] have "(WaitCallback k p, args) \<in> set ?tr" .
  from first_call_found [OF this] obtain b where b: "first_call p ?tr = Some b" by blast
  with emitSync_promise(1) [OF assms(3), of env k args] assms(4)
  have f: "promises (snd (emitSync env k args s)) p = Fulfilled b" by (simp add: settle_by_def)
  from first_call_in [OF b] obtain l where l: "(l, b) \<in> set ?tr" by blast
  with f show "\<exists>a l. promises (snd (emitSync env k args s)) p = Fulfilled a \<and> (l, a) \<in> set ?tr"
    by blast
  show "promises (snd (emitSync env k args s)) p = Fulfilled args" if "no_reentry env"
    using emitSync_args [OF that, of s k args] l f by auto
qed

lemma emitSync_pending_or_args:
  assumes "no_reentry env" "p < nwaits s" "promises s p = Pending"
  shows "promises (snd (emitSync env k args s)) p = Pending \<or>
         promises (snd (emitSync env k args s)) p = Fulfilled args"
proof (cases "first_call p (new_calls s (snd (emitSync env k args s)))")
  case None
  with emitSync_promise(1) [OF assms(2), of env k args] assms(3) show ?thesis
    by (simp add: settle_by_def)
next
  case (Some b)
  from first_call_in [OF Some] emitSync_args [OF assms(1), of s k args] have "b = args" by auto
  with Some emitSync_promise(1) [OF assms(2), of env k args] assms(3) show ?thesis
    by (simp add: settle_by_def)
qed

lemma emitSync_not_called:
  assumes "p < nwaits s" "\<forall>k' a. (WaitCallback k' p, a) \<notin> set (new_calls s (snd (emitSync env k args s)))"
  shows "promises (snd (emitSync env k args s)) p = promises s p"
  using emitSync_promise(1) [OF assms(1), of env k args] first_call_None [OF assms(2)]
  by (simp add: settle_by_None)

lemma emitSync_keeps_fulfilled:
  assumes "p < nwaits s" "promises s p = Fulfilled v"
  shows "promises (snd (emitSync env k args s)) p = Fulfilled v"
  using emitSync_promise(1) [OF assms(1), of env k args] assms(2) by (simp add: settle_by_def)

lemma emitSync_thrower_before:
  assumes "registry_only env" "no_reentry env" "well_formed s" "p < nwaits s"
    "m < length (listener_list s k)"
    "dispatch_snapshot env (take m (listener_list s k)) args s = (Returned rs, sm)"
    "fst (call_listener env (listener_list s k ! m) args sm) = Thrown e"
    "\<forall>k'. WaitCallback k' p \<notin> set (take (Suc m) (listener_list s k))"
  shows "fst (emitSync env k args s) = Thrown e \<and>
         promises (snd (emitSync env k args s)) p = promises s p"
proof -
  let ?xs = "listener_list s k"
  obtain s' where c: "call_listener env (?xs ! m) args sm = (Thrown e, s')"
    using assms(7) by (cases "call_listener env (?xs ! m) args sm") simp
  from dispatch_snapshot_prefix_throws [OF assms(5,6) c] emitSync_snapshot [OF assms(1,3), of k args]
  have e: "emitSync env k args s = (Thrown e, s')" by simp
  from dispatch_snapshot_trace [OF assms(2,6)]
  have 1: "invoked sm = invoked s @ map (\<lambda>l. (l, args)) (take m ?xs)" .
  from invoke_quiet [OF assms(2), of "nested (stack_limit env) env" "?xs ! m" args sm] c
  have "invoked s' = invoked sm @ [(?xs ! m, args)]" by (simp add: call_listener_def)
  with 1 assms(5) have "new_calls s s' = map (\<lambda>l. (l, args)) (take (Suc m) ?xs)"
    by (simp add: new_calls_def take_Suc_conv_app_nth)
  with assms(8) e
  have "\<forall>k' a. (WaitCallback k' p, a) \<notin> set (new_calls s (snd (emitSync env k args s)))"
    by auto
  from emitSync_not_called [OF assms(4) this] e show ?thesis by simp
qed

lemma wait_registers:
  assumes "well_formed s" "wait k t s = (p, s1)" "promises s1 p = Pending"
  shows "well_formed s1 \<and> p < nwaits s1 \<and> WaitCallback k p \<in> set (listener_list s1 k)"
proof -
  let ?s0 = "s\<lparr>promises := (promises s)(nwaits s := Pending),
                 fullfilled := (fullfilled s)(nwaits s := False),
                 nwaits := Suc (nwaits s)\<rparr>"
  from assms(2) have p: "p = nwaits s" by (simp add: wait_def Let_def split: sum.splits)
  from wait_frame [of s k t] assms(1,2) have w: "well_formed s1" "nwaits s \<le> nwaits s1"
    by (simp_all add: frame_def)
  show ?thesis
  proof (cases "addListener k [WaitCallback k (nwaits s)] ?s0")
    case (Inl e)
    with assms(2,3) show ?thesis by (auto simp: wait_def Let_def)
  next
    case (Inr s2)
    from addListener_Inr [OF Inr] have "WaitCallback k p \<in> set (listener_list s2 k)"
      by (simp add: listener_list_eq p)
    moreover from Inr assms(2) have "listener_list s1 k = listener_list s2 k" "nwaits s1 = Suc (nwaits s)"
      using addListener_Inr [OF Inr]
      by (auto simp: wait_def Let_def listener_list_eq split: option.splits)
    ultimately show ?thesis using w p by simp
  qed
qed

lemma mono_first_call_None: "(\<forall>a. (MonoWaitCallback p, a) \<notin> set tr) \<Longrightarrow> mono_first_call p tr = None"
  by (induction p tr rule: mono_first_call.induct) auto

lemma mono_dispatch_snapshot_prefix_throws:
  "m < length xs \<Longrightarrow> mono_dispatch_snapshot env (take m xs) args s = (Returned rs, sm) \<Longrightarrow>
     mono_call_listener env (xs ! m) args sm = (Thrown e, s') \<Longrightarrow>
     mono_dispatch_snapshot env xs args s = (Thrown e, s')"
proof (induction xs arbitrary: m s rs)
  case Nil
  then show ?case by simp
next
  case (Cons x xs)
  show ?case
  proof (cases m)
    case 0
    with Cons.prems show ?thesis by simp
  next
    case (Suc m')
    obtain o1 s1 where inv: "mono_call_listener env x args s = (o1, s1)" by force
    from Cons.prems(2) Suc inv obtain r rs' where o1: "o1 = Returned r"
      and d: "mono_dispatch_snapshot env (take m' xs) args s1 = (Returned rs', sm)"
      by (cases o1) (auto split: prod.splits outcome.splits)
    from Cons.prems(1,3) Suc
    have "m' < length xs" "mono_call_listener env (xs ! m') args sm = (Thrown e, s')"
      by simp_all
    from Cons.IH [OF this(1) d this(2)] inv o1 show ?thesis by simp
  qed
qed

lemma mono_emitSync_promise:
  assumes "p < m_nwaits s"
  shows "m_promises (snd (mono_emitSync env args s)) p
           = settle_by (mono_first_call p (mono_new_calls s (snd (mono_emitSync env args s))))
               (m_promises s p)"
    and "p < m_nwaits (snd (mono_emitSync env args s))"
  using mono_client_rel_promise [OF mono_emitSync_client [of s env args] assms] by blast+

lemma mono_call_listener_promise:
  assumes "p < m_nwaits s"
  shows "m_promises (snd (mono_call_listener env l args s)) p
           = settle_by (mono_first_call p (mono_new_calls s (snd (mono_call_listener env l args s))))
               (m_promises s p)"
  using mono_client_rel_promise [OF mono_call_listener_client [of s env l args] assms] by blast

lemma mono_emitSync_well_formed:
  "mono_well_formed s \<Longrightarrow> mono_well_formed (snd (mono_emitSync env args s))"
  using mono_emitSync_client [of s env args] by (simp add: mono_client_rel_def)

lemma mono_emitSync_fulfils:
  assumes "mono_registry_only env" "mono_well_formed s" "p < m_nwaits s" "m_promises s p = Pending"
    "MonoWaitCallback p \<in> set (mono_list s)" "returned (fst (mono_emitSync env args s))"
  shows "\<exists>a l. m_promises (snd (mono_emitSync env args s)) p = Fulfilled a \<and>
           (l, a) \<in> set (mono_new_calls s (snd (mono_emitSync env args s)))"
    and "mono_no_reentry env \<Longrightarrow> m_promises (snd (mono_emitSync env args s)) p = Fulfilled args"
proof -
  let ?tr = "mono_new_calls s (snd (mono_emitSync env args s))"
  from mono_emitSync_calls_all [OF assms(1,2,6,5)] have "(MonoWaitCallback p, args) \<in> set ?tr" .
  from mono_first_call_found [OF this] obtain b where b: "mono_first_call p ?tr = Some b" by blast
  with mono_emitSync_promise(1) [OF assms(3), of env args] assms(4)
  have f: "m_promises (snd (mono_emitSync env args s)) p = Fulfilled b" by (simp add: settle_by_def)
  from mono_first_call_in [OF b] obtain l where l: "(l, b) \<in> set ?tr" by blast
  with f show "\<exists>a l. m_promises (snd (mono_emitSync env args s)) p = Fulfilled a \<and> (l, a) \<in> set ?tr"
    by blast
  show "m_promises (snd (mono_emitSync env args s)) p = Fulfilled args" if "mono_no_reentry env"
    using mono_emitSync_args [OF that, of s args] l f by auto
qed

lemma mono_emitSync_pending_or_args:
  assumes "mono_no_reentry env" "p < m_nwaits s" "m_promises s p = Pending"
  shows "m_promises (snd (mono_emitSync env args s)) p = Pending \<or>
         m_promises (snd (mono_emitSync env args s)) p = Fulfilled args"
proof (cases "mono_first_call p (mono_new_calls s (snd (mono_emitSync env args s)))")
  case None
  with mono_emitSync_promise(1) [OF assms(2), of env args] assms(3) show ?thesis
    by (simp add: settle_by_def)
next
  case (Some b)
  from mono_first_call_in [OF Some] mono_emitSync_args [OF assms(1), of s args] have "b = args" by auto
  with Some mono_emitSync_promise(1) [OF assms(2), of env args] assms(3) show ?thesis
    by (simp add: settle_by_def)
qed

lemma mono_emitSync_not_called:
  assumes "p < m_nwaits s"
    "\<forall>a. (MonoWaitCallback p, a) \<notin> set (mono_new_calls s (snd (mono_emitSync env args s)))"
  shows "m_promises (snd (mono_emitSync env args s)) p = m_promises s p"
  using mono_emitSync_promise(1) [OF assms(1), of env args] mono_first_call_None [OF assms(2)]
  by (simp add: settle_by_None)

lemma mono_emitSync_keeps_fulfilled:
  assumes "p < m_nwaits s" "m_promises s p = Fulfilled v"
  shows "m_promises (snd (mono_emitSync env args s)) p = Fulfilled v"
  using mono_emitSync_promise(1) [OF assms(1), of env args] assms(2) by (simp add: settle_by_def)

lemma mono_emitSync_thrower_before:
  assumes "mono_registry_only env" "mono_no_reentry env" "mono_well_formed s" "p < m_nwaits s"
    "m < length (mono_list s)"
    "mono_dispatch_snapshot env (take m (mono_list s)) args s = (Returned rs, sm)"
    "fst (mono_call_listener env (mono_list s ! m) args sm) = Thrown e"
    "MonoWaitCallback p \<notin> set (take (Suc m) (mono_list s))"
  shows "fst (mono_emitSync env args s) = Thrown e \<and>
         m_promises (snd (mono_emitSync env args s)) p = m_promises s p"
proof -
  let ?xs = "mono_list s"
  obtain s' where c: "mono_call_listener env (?xs ! m) args sm = (Thrown e, s')"
    using assms(7) by (cases "mono_call_listener env (?xs ! m) args sm") simp
  from mono_dispatch_snapshot_prefix_throws [OF assms(5,6) c]
    mono_emitSync_snapshot [OF assms(1,3), of args]
  have e: "mono_emitSync env args s = (Thrown e, s')" by simp
  from mono_dispatch_snapshot_trace [OF assms(2,6)]
  have 1: "m_invoked sm = m_invoked s @ map (\<lambda>l. (l, args)) (take m ?xs)" .
  from mono_invoke_quiet [OF assms(2), of "mono_nested (mono_stack_limit env) env" "?xs ! m" args sm] c
  have "m_invoked s' = m_invoked sm @ [(?xs ! m, args)]" by (simp add: mono_call_listener_def)
  with 1 assms(5) have "mono_new_calls s s' = map (\<lambda>l. (l, args)) (take (Suc m) ?xs)"
    by (simp add: mono_new_calls_def take_Suc_conv_app_nth)
  with assms(8) e
  have "\<forall>a. (MonoWaitCallback p, a) \<notin> set (mono_new_calls s (snd (mono_emitSync env args s)))"
    by auto
  from mono_emitSync_not_called [OF assms(4) this] e show ?thesis by simp
qed

lemma mono_wait_registers:
  assumes "mono_well_formed s" "mono_wait t s = (p, s1)"
  shows "mono_well_formed s1 \<and> p < m_nwaits s1 \<and> m_promises s1 p = Pending \<and> MonoWaitCallback p \<in> set (mono_list s1)"
  using assms by (auto simp: mono_wait_def Let_def mono_well_formed_def mono_list_def split: option.splits)

text \<open>
  Claim C6, refuted as stated. After \<open>wait\<close> on the event \<open>x\<close>, the listener
  \<open>Fn 9\<close>, which throws, is registered and lands before the callback: the next
  emission, with the argument 7, throws before it reaches the callback, and the promise
  stays pending. With the listener \<open>Fn 6\<close> instead, which emits the argument 99 on
  \<open>x\<close> while it runs, the next emission returns and has called the callback with the
  argument 7, yet the promise is fulfilled with 99, the argument of the emission made
  meanwhile. The same on the mono emitter.
\<close>

theorem wait_misses_dispatch_arguments:
  "promises (ex_waiting_behind 9) 0 = Pending \<and>
   listener_list (ex_waiting_behind 9) ''x'' = [Fn 9, WaitCallback ''x'' 0] \<and>
   fst (emitSync ex_env ''x'' [7] (ex_waiting_behind 9)) = Thrown (ListenerError 9) \<and>
   fst (emit ex_env ''x'' [7] (ex_waiting_behind 9)) = Thrown (ListenerError 9) \<and>
   promises (snd (emitSync ex_env ''x'' [7] (ex_waiting_behind 9))) 0 = Pending \<and>
   promises (snd (emit ex_env ''x'' [7] (ex_waiting_behind 9))) 0 = Pending \<and>
   promises (ex_waiting_behind 6) 0 = Pending \<and>
   listener_list (ex_waiting_behind 6) ''x'' = [Fn 6, WaitCallback ''x'' 0] \<and>
   fst (emitSync ex_env_wild ''x'' [7] (ex_waiting_behind 6)) = Returned [Plain (Some 6), Plain None] \<and>
   (WaitCallback ''x'' 0, [7]) \<in> set (invoked (snd (emitSync ex_env_wild ''x'' [7] (ex_waiting_behind 6)))) \<and>
   promises (snd (emitSync ex_env_wild ''x'' [7] (ex_waiting_behind 6))) 0 = Fulfilled [99] \<and>
   m_promises (ex_mono_waiting_behind 9) 0 = Pending \<and>
   mono_list (ex_mono_waiting_behind 9) = [MonoFn 9, MonoWaitCallback 0] \<and>
   fst (mono_emitSync ex_mono_env [7] (ex_mono_waiting_behind 9)) = Thrown (ListenerError 9) \<and>
   m_promises (snd (mono_emitSync ex_mono_env [7] (ex_mono_waiting_behind 9))) 0 = Pending \<and>
   m_promises (ex_mono_waiting_behind 6) 0 = Pending \<and>
   mono_list (ex_mono_waiting_behind 6) = [MonoFn 6, MonoWaitCallback 0] \<and>
   fst (mono_emitSync ex_mono_env_wild [7] (ex_mono_waiting_behind 6))
     = Returned [Plain (Some 6), Plain None] \<and>
   m_promises (snd (mono_emitSync ex_mono_env_wild [7] (ex_mono_waiting_behind 6))) 0 = Fulfilled [99]"
proof -
  obtain o1 s1 where 1: "emitSync ex_env ''x'' [7] (ex_waiting_behind 9) = (o1, s1)" by force
  obtain o2 s2 where 2: "emitSync ex_env_wild ''x'' [7] (ex_waiting_behind 6) = (o2, s2)" by force
  have 0: "promises (ex_waiting_behind f) 0 = Pending"
    "listener_list (ex_waiting_behind f) ''x'' = [Fn f, WaitCallback ''x'' 0]" for f
    by (simp_all add: ex_waiting_behind_eq new_emitter_def listener_list_eq)
  obtain o3 s3 where 3: "mono_emitSync ex_mono_env [7] (ex_mono_waiting_behind 9) = (o3, s3)" by force
  obtain o4 s4 where 4: "mono_emitSync ex_mono_env_wild [7] (ex_mono_waiting_behind 6) = (o4, s4)"
    by force
  have m0: "m_promises (ex_mono_waiting_behind f) 0 = Pending"
    "mono_list (ex_mono_waiting_behind f) = [MonoFn f, MonoWaitCallback 0]" for f
    by (simp_all add: ex_mono_waiting_behind_eq new_mono_def mono_list_def)
  from ex_waiting_behind_thrower [OF 1] ex_waiting_behind_emitSync [OF 2]
    ex_mono_waiting_behind_thrower [OF 3] ex_mono_waiting_behind_emitSync [OF 4] 0 m0 1 2 3 4
  show ?thesis by (simp add: emit_eq)
qed

text \<open>
  Claim C6, amended. The promise of a wait made before a dispatch moves only as the
  calls of its one-shot callback say: it is fulfilled with the arguments of the first call
  of the callback, whoever made it, and a dispatch that does not call the callback
  leaves it as it is; a fulfilled promise keeps its value through every later dispatch,
  on any event, and through the firing of any timer. For listeners that leave the arrays
  of the emitter alone, a dispatch on the event of the wait that returns has called the
  callback, if it was registered, so the promise is fulfilled afterwards: with the arguments
  of some listener call of the dispatch, and with exactly the arguments of the dispatch
  when no listener dispatches or calls listeners itself. Without such re-entrant calls a
  dispatch on any event leaves a pending promise pending or fulfils it with its own
  arguments; and when the listeners up to the first one that throws do not include the
  callback, the dispatch throws and leaves the promise as it is. A call of \<open>wait\<close>
  whose promise is pending afterwards has registered the callback. \<open>emit\<close> ends in
  the state of \<open>emitSync\<close> and returns exactly when \<open>emitSync\<close> does. Both emitters.
\<close>

theorem wait_resolves_with_dispatch_arguments:
  "(p < nwaits s \<longrightarrow>
      promises (snd (emitSync env k args s)) p
        = settle_by (first_call p (new_calls s (snd (emitSync env k args s)))) (promises s p) \<and>
      promises (snd (call_listener env l args s)) p
        = settle_by (first_call p (new_calls s (snd (call_listener env l args s)))) (promises s p) \<and>
      p < nwaits (snd (emitSync env k args s)) \<and>
      (well_formed s \<longrightarrow> well_formed (snd (emitSync env k args s)))) \<and>
   (p < nwaits s \<and>
      (\<forall>k' a. (WaitCallback k' p, a) \<notin> set (new_calls s (snd (emitSync env k args s)))) \<longrightarrow>
      promises (snd (emitSync env k args s)) p = promises s p) \<and>
   (p < nwaits s \<and> promises s p = Fulfilled v \<longrightarrow>
      promises (snd (emitSync env k args s)) p = Fulfilled v \<and>
      promises (timer_fires q s) p = Fulfilled v) \<and>
   (registry_only env \<and> well_formed s \<and> p < nwaits s \<and> promises s p = Pending \<and>
      WaitCallback k p \<in> set (listener_list s k) \<and> returned (fst (emitSync env k args s)) \<longrightarrow>
      (\<exists>a l'. promises (snd (emitSync env k args s)) p = Fulfilled a \<and>
         (l', a) \<in> set (new_calls s (snd (emitSync env k args s)))) \<and>
      (no_reentry env \<longrightarrow> promises (snd (emitSync env k args s)) p = Fulfilled args)) \<and>
   (no_reentry env \<and> p < nwaits s \<and> promises s p = Pending \<longrightarrow>
      promises (snd (emitSync env k args s)) p = Pending \<or>
      promises (snd (emitSync env k args s)) p = Fulfilled args) \<and>
   (registry_only env \<and> no_reentry env \<and> well_formed s \<and> p < nwaits s \<and>
      m < length (listener_list s k) \<and>
      dispatch_snapshot env (take m (listener_list s k)) args s = (Returned rs, sm) \<and>
      fst (call_listener env (listener_list s k ! m) args sm) = Thrown e \<and>
      (\<forall>k'. WaitCallback k' p \<notin> set (take (Suc m) (listener_list s k))) \<longrightarrow>
      fst (emitSync env k args s) = Thrown e \<and>
      promises (snd (emitSync env k args s)) p = promises s p) \<and>
   (well_formed s \<and> wait k t s = (p', s1) \<and> promises s1 p' = Pending \<longrightarrow>
      well_formed s1 \<and> p' < nwaits s1 \<and> WaitCallback k p' \<in> set (listener_list s1 k)) \<and>
   snd (emit env k args s) = snd (emitSync env k args s) \<and>
   returned (fst (emit env k args s)) = returned (fst (emitSync env k args s)) \<and>
   (p < m_nwaits u \<longrightarrow>
      m_promises (snd (mono_emitSync menv args u)) p
        = settle_by (mono_first_call p (mono_new_calls u (snd (mono_emitSync menv args u))))
            (m_promises u p) \<and>
      m_promises (snd (mono_call_listener menv ml args u)) p
        = settle_by (mono_first_call p (mono_new_calls u (snd (mono_call_listener menv ml args u))))
            (m_promises u p) \<and>
      p < m_nwaits (snd (mono_emitSync menv args u)) \<and>
      (mono_well_formed u \<longrightarrow> mono_well_formed (snd (mono_emitSync menv args u)))) \<and>
   (p < m_nwaits u \<and>
      (\<forall>a. (MonoWaitCallback p, a) \<notin> set (mono_new_calls u (snd (mono_emitSync menv args u)))) \<longrightarrow>
      m_promises (snd (mono_emitSync menv args u)) p = m_promises u p) \<and>
   (p < m_nwaits u \<and> m_promises u p = Fulfilled v \<longrightarrow>
      m_promises (snd (mono_emitSync menv args u)) p = Fulfilled v \<and>
      m_promises (mono_timer_fires q u) p = Fulfilled v) \<and>
   (mono_registry_only menv \<and> mono_well_formed u \<and> p < m_nwaits u \<and> m_promises u p = Pending \<and>
      MonoWaitCallback p \<in> set (mono_list u) \<and> returned (fst (mono_emitSync menv args u)) \<longrightarrow>
      (\<exists>a l'. m_promises (snd (mono_emitSync menv args u)) p = Fulfilled a \<and>
         (l', a) \<in> set (mono_new_calls u (snd (mono_emitSync menv args u)))) \<and>
      (mono_no_reentry menv \<longrightarrow> m_promises (snd (mono_emitSync menv args u)) p = Fulfilled args)) \<and>
   (mono_no_reentry menv \<and> p < m_nwaits u \<and> m_promises u p = Pending \<longrightarrow>
      m_promises (snd (mono_emitSync menv args u)) p = Pending \<or>
      m_promises (snd (mono_emitSync menv args u)) p = Fulfilled args) \<and>
   (mono_registry_only menv \<and> mono_no_reentry menv \<and> mono_well_formed u \<and> p < m_nwaits u \<and>
      m < length (mono_list u) \<and>
      mono_dispatch_snapshot menv (take m (mono_list u)) args u = (Returned rs, um) \<and>
      fst (mono_call_listener menv (mono_list u ! m) args um) = Thrown e \<and>
      MonoWaitCallback p \<notin> set (take (Suc m) (mono_list u)) \<longrightarrow>
      fst (mono_emitSync menv args u) = Thrown e \<and>
      m_promises (snd (mono_emitSync menv args u)) p = m_promises u p) \<and>
   (mono_well_formed u \<and> mono_wait t u = (p', u1) \<longrightarrow>
      mono_well_formed u1 \<and> p' < m_nwaits u1 \<and> m_promises u1 p' = Pending \<and>
      MonoWaitCallback p' \<in> set (mono_list u1)) \<and>
   snd (mono_emit menv args u) = snd (mono_emitSync menv args u) \<and>
   returned (fst (mono_emit menv args u)) = returned (fst (mono_emitSync menv args u))"
proof (intro conjI impI; (elim conjE)?)
  show "\<exists>a l'. promises (snd (emitSync env k args s)) p = Fulfilled a \<and>
         (l', a) \<in> set (new_calls s (snd (emitSync env k args s)))"
    if "registry_only env" "well_formed s" "p < nwaits s" "promises s p = Pending"
      "WaitCallback k p \<in> set (listener_list s k)" "returned (fst (emitSync env k args s))"
    using that by (rule emitSync_fulfils(1))
  show "promises (snd (emitSync env k args s)) p = Fulfilled args"
    if "registry_only env" "well_formed s" "p < nwaits s" "promises s p = Pending"
      "WaitCallback k p \<in> set (listener_list s k)" "returned (fst (emitSync env k args s))"
      "no_reentry env"
    using that by (rule emitSync_fulfils(2))
  show "promises (snd (emitSync env k args s)) p = Pending \<or>
      promises (snd (emitSync env k args s)) p = Fulfilled args"
    if "no_reentry env" "p < nwaits s" "promises s p = Pending"
    using that by (rule emitSync_pending_or_args)
  show "promises (snd (emitSync env k args s)) p = promises s p"
    if "p < nwaits s"
      "\<forall>k' a. (WaitCallback k' p, a) \<notin> set (new_calls s (snd (emitSync env k args s)))"
    using that by (rule emitSync_not_called)
  show "fst (emitSync env k args s) = Thrown e"
    "promises (snd (emitSync env k args s)) p = promises s p"
    if "registry_only env" "no_reentry env" "well_formed s" "p < nwaits s"
      "m < length (listener_list s k)"
      "dispatch_snapshot env (take m (listener_list s k)) args s = (Returned rs, sm)"
      "fst (call_listener env (listener_list s k ! m) args sm) = Thrown e"
      "\<forall>k'. WaitCallback k' p \<notin> set (take (Suc m) (listener_list s k))"
    using emitSync_thrower_before [OF that] by simp_all
  show "\<exists>a l'. m_promises (snd (mono_emitSync menv args u)) p = Fulfilled a \<and>
         (l', a) \<in> set (mono_new_calls u (snd (mono_emitSync menv args u)))"
    if "mono_registry_only menv" "mono_well_formed u" "p < m_nwaits u" "m_promises u p = Pending"
      "MonoWaitCallback p \<in> set (mono_list u)" "returned (fst (mono_emitSync menv args u))"
    using that by (rule mono_emitSync_fulfils(1))
  show "m_promises (snd (mono_emitSync menv args u)) p = Fulfilled args"
    if "mono_registry_only menv" "mono_well_formed u" "p < m_nwaits u" "m_promises u p = Pending"
      "MonoWaitCallback p \<in> set (mono_list u)" "returned (fst (mono_emitSync menv args u))"
      "mono_no_reentry menv"
    using that by (rule mono_emitSync_fulfils(2))
  show "m_promises (snd (mono_emitSync menv args u)) p = Pending \<or>
      m_promises (snd (mono_emitSync menv args u)) p = Fulfilled args"
    if "mono_no_reentry menv" "p < m_nwaits u" "m_promises u p = Pending"
    using that by (rule mono_emitSync_pending_or_args)
  show "m_promises (snd (mono_emitSync menv args u)) p = m_promises u p"
    if "p < m_nwaits u"
      "\<forall>a. (MonoWaitCallback p, a) \<notin> set (mono_new_calls u (snd (mono_emitSync menv args u)))"
    using that by (rule mono_emitSync_not_called)
  show "fst (mono_emitSync menv args u) = Thrown e"
    "m_promises (snd (mono_emitSync menv args u)) p = m_promises u p"
    if "mono_registry_only menv" "mono_no_reentry menv" "mono_well_formed u" "p < m_nwaits u"
      "m < length (mono_list u)"
      "mono_dispatch_snapshot menv (take m (mono_list u)) args u = (Returned rs, um)"
      "fst (mono_call_listener menv (mono_list u ! m) args um) = Thrown e"
      "MonoWaitCallback p \<notin> set (take (Suc m) (mono_list u))"
    using mono_emitSync_thrower_before [OF that] by simp_all
qed (simp_all add: emitSync_promise call_listener_promise emitSync_well_formed
    emitSync_keeps_fulfilled mono_emitSync_promise mono_call_listener_promise
    mono_emitSync_well_formed mono_emitSync_keeps_fulfilled wait_registers
    mono_wait_registers emit_state emit_returned mono_emit_state mono_emit_returned
    timer_fires_def timer_callback_def mono_timer_fires_def mono_timer_callback_def settle_by_def)

text \<open>Claim C6 on examples: a wait on a new emitter, an emission with the argument 7,
  then one with the argument 8; and an emission on a state where the listener before the
  callback throws.\<close>

theorem wait_resolves_with_dispatch_arguments_witness:
  "registry_only ex_env \<and> no_reentry ex_env \<and>
   well_formed (new_emitter :: (string, nat) emitter) \<and> wait ''x'' None new_emitter = (0, ex_waiting) \<and>
   well_formed ex_waiting \<and> 0 < nwaits ex_waiting \<and> promises ex_waiting 0 = Pending \<and>
   WaitCallback ''x'' 0 \<in> set (listener_list ex_waiting ''x'') \<and>
   returned (fst (emitSync ex_env ''x'' [7] ex_waiting)) \<and>
   promises (snd (emitSync ex_env ''x'' [7] ex_waiting)) 0 = Fulfilled [7] \<and>
   promises (snd (emitSync ex_env ''x'' [8] (snd (emitSync ex_env ''x'' [7] ex_waiting)))) 0 = Fulfilled [7] \<and>
   well_formed (ex_waiting_behind 9) \<and> 0 < nwaits (ex_waiting_behind 9) \<and>
   listener_list (ex_waiting_behind 9) ''x'' = [Fn 9, WaitCallback ''x'' 0] \<and>
   fst (call_listener ex_env (Fn 9) [7] (ex_waiting_behind 9)) = Thrown (ListenerError 9) \<and>
   fst (emitSync ex_env ''x'' [7] (ex_waiting_behind 9)) = Thrown (ListenerError 9) \<and>
   promises (snd (emitSync ex_env ''x'' [7] (ex_waiting_behind 9))) 0 = Pending \<and>
   mono_registry_only ex_mono_env \<and> mono_no_reentry ex_mono_env \<and>
   mono_well_formed (new_mono :: nat mono) \<and> mono_wait None new_mono = (0, ex_mono_waiting) \<and>
   mono_well_formed ex_mono_waiting \<and> 0 < m_nwaits ex_mono_waiting \<and>
   m_promises ex_mono_waiting 0 = Pending \<and> MonoWaitCallback 0 \<in> set (mono_list ex_mono_waiting) \<and>
   returned (fst (mono_emitSync ex_mono_env [7] ex_mono_waiting)) \<and>
   m_promises (snd (mono_emitSync ex_mono_env [7] ex_mono_waiting)) 0 = Fulfilled [7] \<and>
   m_promises (snd (mono_emitSync ex_mono_env [8] (snd (mono_emitSync ex_mono_env [7] ex_mono_waiting)))) 0
     = Fulfilled [7] \<and>
   mono_well_formed (ex_mono_waiting_behind 9) \<and> 0 < m_nwaits (ex_mono_waiting_behind 9) \<and>
   mono_list (ex_mono_waiting_behind 9) = [MonoFn 9, MonoWaitCallback 0] \<and>
   fst (mono_call_listener ex_mono_env (MonoFn 9) [7] (ex_mono_waiting_behind 9))
     = Thrown (ListenerError 9) \<and>
   fst (mono_emitSync ex_mono_env [7] (ex_mono_waiting_behind 9)) = Thrown (ListenerError 9) \<and>
   m_promises (snd (mono_emitSync ex_mono_env [7] (ex_mono_waiting_behind 9))) 0 = Pending"
proof -
  let ?s2 = "snd (emitSync ex_env ''x'' [7] ex_waiting)"
  let ?u2 = "snd (mono_emitSync ex_mono_env [7] ex_mono_waiting)"
  let ?s9 = "ex_waiting_behind 9"
  let ?u9 = "ex_mono_waiting_behind 9"
  have a: "well_formed ex_waiting" "0 < nwaits ex_waiting" "promises ex_waiting 0 = Pending"
    "WaitCallback ''x'' 0 \<in> set (listener_list ex_waiting ''x'')"
    by (simp_all add: ex_waiting_eq well_formed_def new_emitter_def listener_list_eq)
  have b: "returned (fst (emitSync ex_env ''x'' [7] ex_waiting))"
    by (simp add: ex_waiting_eq new_emitter_def emitSync_def map_listeners_def invoke_def Let_def
        returned_def)
  have c: "well_formed (new_emitter :: (string, nat) emitter)" "wait ''x'' None new_emitter = (0, ex_waiting)"
    by (simp_all add: well_formed_def new_emitter_def ex_waiting_def wait_def Let_def split: sum.splits)
  have ma: "mono_well_formed ex_mono_waiting" "0 < m_nwaits ex_mono_waiting"
    "m_promises ex_mono_waiting 0 = Pending" "MonoWaitCallback 0 \<in> set (mono_list ex_mono_waiting)"
    by (simp_all add: ex_mono_waiting_eq mono_well_formed_def new_mono_def mono_list_def)
  have mb: "returned (fst (mono_emitSync ex_mono_env [7] ex_mono_waiting))"
    by (simp add: ex_mono_waiting_eq new_mono_def mono_emitSync_def mono_map_listeners_def
        mono_invoke_def Let_def returned_def)
  have mc: "mono_well_formed (new_mono :: nat mono)" "mono_wait None new_mono = (0, ex_mono_waiting)"
    by (simp_all add: mono_well_formed_def new_mono_def ex_mono_waiting_def mono_wait_def Let_def)
  note t1 = wait_resolves_with_dispatch_arguments [where p = 0 and s = ex_waiting and env = ex_env
      and k = "''x''" and args = "[7]" and u = ex_mono_waiting and menv = ex_mono_env]
  from a b ex_env_plain t1 [THEN conjunct2, THEN conjunct2, THEN conjunct2, THEN conjunct1]
  have d: "promises ?s2 0 = Fulfilled [7]" by blast
  from a t1 [THEN conjunct1]
  have d': "0 < nwaits ?s2" by blast
  from ma mb ex_mono_env_plain t1 [THEN conjunct2, THEN conjunct2, THEN conjunct2, THEN conjunct2, THEN conjunct2, THEN conjunct2, THEN conjunct2, THEN conjunct2, THEN conjunct2, THEN conjunct2, THEN conjunct2, THEN conjunct2, THEN conjunct1]
  have md: "m_promises ?u2 0 = Fulfilled [7]" by blast
  from ma t1 [THEN conjunct2, THEN conjunct2, THEN conjunct2, THEN conjunct2, THEN conjunct2, THEN conjunct2, THEN conjunct2, THEN conjunct2, THEN conjunct2, THEN conjunct1]
  have md': "0 < m_nwaits ?u2" by blast
  note t2 = wait_resolves_with_dispatch_arguments [where p = 0 and s = ?s2 and env = ex_env
      and k = "''x''" and args = "[8]" and v = "[7]" and u = ?u2 and menv = ex_mono_env]
  from d d' t2 [THEN conjunct2, THEN conjunct2, THEN conjunct1]
  have f: "promises (snd (emitSync ex_env ''x'' [8] ?s2)) 0 = Fulfilled [7]" by blast
  from md md' t2 [THEN conjunct2, THEN conjunct2, THEN conjunct2, THEN conjunct2, THEN conjunct2, THEN conjunct2, THEN conjunct2, THEN conjunct2, THEN conjunct2, THEN conjunct2, THEN conjunct2, THEN conjunct1]
  have mf: "m_promises (snd (mono_emitSync ex_mono_env [8] ?u2)) 0 = Fulfilled [7]" by blast
  have g: "well_formed ?s9" "0 < nwaits ?s9" "promises ?s9 0 = Pending"
    "listener_list ?s9 ''x'' = [Fn 9, WaitCallback ''x'' 0]"
    "fst (call_listener ex_env (Fn 9) [7] ?s9) = Thrown (ListenerError 9)"
    by (simp_all add: ex_waiting_behind_eq well_formed_def new_emitter_def listener_list_eq
        call_listener_def invoke_def ex_env_def Let_def)
  have mg: "mono_well_formed ?u9" "0 < m_nwaits ?u9" "m_promises ?u9 0 = Pending"
    "mono_list ?u9 = [MonoFn 9, MonoWaitCallback 0]"
    "fst (mono_call_listener ex_mono_env (MonoFn 9) [7] ?u9) = Thrown (ListenerError 9)"
    by (simp_all add: ex_mono_waiting_behind_eq mono_well_formed_def new_mono_def mono_list_def
        mono_call_listener_def mono_invoke_def ex_mono_env_def Let_def)
  note t3 = wait_resolves_with_dispatch_arguments [where p = 0 and s = ?s9 and env = ex_env
      and k = "''x''" and args = "[7]" and m = 0 and rs = "[]" and sm = ?s9
      and e = "ListenerError 9" and u = ?u9 and menv = ex_mono_env and um = ?u9]
  from g ex_env_plain t3 [THEN conjunct2, THEN conjunct2, THEN conjunct2, THEN conjunct2, THEN conjunct2, THEN conjunct1]
  have h: "fst (emitSync ex_env ''x'' [7] ?s9) = Thrown (ListenerError 9)"
    "promises (snd (emitSync ex_env ''x'' [7] ?s9)) 0 = Pending"
    by simp_all
  from mg ex_mono_env_plain t3 [THEN conjunct2, THEN conjunct2, THEN conjunct2, THEN conjunct2, THEN conjunct2, THEN conjunct2, THEN conjunct2, THEN conjunct2, THEN conjunct2, THEN conjunct2, THEN conjunct2, THEN conjunct2, THEN conjunct2, THEN conjunct2, THEN conjunct1]
  have mh: "fst (mono_emitSync ex_mono_env [7] ?u9) = Thrown (ListenerError 9)"
    "m_promises (snd (mono_emitSync ex_mono_env [7] ?u9)) 0 = Pending"
    by simp_all
  from a b c ma mb mc d md f mf g mg h mh ex_env_plain ex_mono_env_plain show ?thesis by simp
qed

section \<open>The array behind the accessor\<close>

text \<open>
  C9, as stated, fails. \<open>getListeners\<close> on the event \<open>x\<close>, which has one listener,
  returns the array of the emitter: after a \<open>push\<close> on it the count is 2, and after a
  \<open>pop\<close> on it a dispatch calls nobody.
\<close>

theorem getListeners_exposes_internal_array:
  "(case getListeners ''x'' ex_emitter of
      (a, s) \<Rightarrow> listenerCount s ''x'' = 1 \<and>
                listenerCount (array_push a (Fn 5) s) ''x'' = 2 \<and>
                listener_list (array_pop a s) ''x'' = [] \<and>
                fst (emitSync ex_env ''x'' [7] s) = Returned [Awaitable (Resolves 5 (Some 11))] \<and>
                fst (emitSync ex_env ''x'' [7] (array_pop a s)) = Returned [])"
  by (simp add: getListeners_def ex_emitter_def new_emitter_def listenerCount_def array_push_def
      array_pop_def listener_list_def emitSync_def map_listeners_def invoke_def ex_env_def Let_def addListener_def
      removeListener_def truthy_def maxCount_def alloc_def)

text \<open>
  C9, amended. The accessor does not change the emitter. For an event that has an entry
  it returns the stored array itself: a \<open>push\<close> on the returned array appends to the
  listeners of the event and raises the count by one, a \<open>pop\<close> removes the last
  listener. For an event without an entry, on a well-formed state, it returns a new empty
  array, and a \<open>push\<close> on that array changes the listeners of no event. The getter of
  the MonoEmitter returns the stored array itself.
\<close>

theorem getListeners_returns_internal_array:
  "(events s k = Some a \<longrightarrow>
      getListeners k s = (a, s) \<and>
      listener_list (array_push a x s) k = listener_list s k @ [x] \<and>
      listenerCount (array_push a x s) k = Suc (listenerCount s k) \<and>
      listener_list (array_pop a s) k = butlast (listener_list s k)) \<and>
   (events s k = None \<and> well_formed s \<longrightarrow>
      (case getListeners k s of
         (a', s') \<Rightarrow> (\<forall>k'. listener_list s' k' = listener_list s k') \<and>
                     (\<forall>k'. listener_list (array_push a' x s') k' = listener_list s k'))) \<and>
   mono_list (mono_array_push (listeners m) y m) = mono_list m @ [y] \<and>
   listenersCount (mono_array_push (listeners m) y m) = Suc (listenersCount m)"
proof (intro conjI impI)
  assume "events s k = None \<and> well_formed s"
  then have n: "events s k = None" and w: "\<And>k' b. events s k' = Some b \<Longrightarrow> b \<noteq> nxt s"
    by (auto simp: well_formed_def)
  show "case getListeners k s of
         (a', s') \<Rightarrow> (\<forall>k'. listener_list s' k' = listener_list s k') \<and>
                     (\<forall>k'. listener_list (array_push a' x s') k' = listener_list s k')"
    using n w by (auto simp: getListeners_def alloc_def listener_list_eq array_push_def split: option.splits)
qed (simp_all add: getListeners_def listener_list_eq listenerCount_eq array_push_def array_pop_def
    mono_list_def mono_array_push_def listenersCount_def)

text \<open>C9 on an example: the event \<open>x\<close> has an entry, the event \<open>y\<close> has none.\<close>

theorem getListeners_returns_internal_array_witness:
  "events ex_emitter ''x'' = Some 0 \<and> getListeners ''x'' ex_emitter = (0, ex_emitter) \<and>
   listener_list (array_push 0 (Fn 5) ex_emitter) ''x'' = [Fn 1, Fn 5] \<and>
   events ex_emitter ''y'' = None \<and> well_formed ex_emitter \<and>
   listener_list (array_push (fst (getListeners ''y'' ex_emitter)) (Fn 5) (snd (getListeners ''y'' ex_emitter))) ''x''
     = [Fn 1] \<and>
   listener_list (array_push (fst (getListeners ''y'' ex_emitter)) (Fn 5) (snd (getListeners ''y'' ex_emitter))) ''y''
     = [] \<and>
   mono_list (mono_array_push (listeners ex_mono) (MonoFn 5) ex_mono) = [MonoFn 1, MonoFn 5]"
proof -
  have a: "events ex_emitter ''x'' = Some 0" "events ex_emitter ''y'' = None" "well_formed ex_emitter"
    "listener_list ex_emitter ''x'' = [Fn 1]" "listener_list ex_emitter ''y'' = []"
    "mono_list ex_mono = [MonoFn 1]"
    by (simp_all add: ex_emitter_def new_emitter_def well_formed_def listener_list_eq mono_list_def ex_mono_def
        new_mono_def)
  from a getListeners_returns_internal_array [of ex_emitter "''x''" 0 "Fn 5" ex_mono "MonoFn 5"]
  have b: "getListeners ''x'' ex_emitter = (0, ex_emitter)"
    "listener_list (array_push 0 (Fn 5) ex_emitter) ''x'' = [Fn 1, Fn 5]"
    "mono_list (mono_array_push (listeners ex_mono) (MonoFn 5) ex_mono) = [MonoFn 1, MonoFn 5]"
    by simp_all
  obtain a' s' where g: "getListeners ''y'' ex_emitter = (a', s')" by force
  from a g getListeners_returns_internal_array [of ex_emitter "''y''" 0 "Fn 5" ex_mono "MonoFn 5"]
  have c: "listener_list (array_push a' (Fn 5) s') k' = listener_list ex_emitter k'" for k'
    by simp
  from a b c [of "''x''"] c [of "''y''"] g show ?thesis by simp
qed

section \<open>Counting listeners\<close>

lemma listener_list_addListener:
  assumes "well_formed s" "addListener k' ls s = Inr s'"
  shows "listener_list s' k = (if k = k' then ls @ listener_list s k else listener_list s k)"
proof -
  from assms(1) have "\<And>b. events s k = Some b \<Longrightarrow> b \<noteq> nxt s" by (auto simp: well_formed_def)
  with addListener_Inr [OF assms(2)] show ?thesis
    by (auto simp: listener_list_eq split: option.splits)
qed

lemma listener_list_removeListener:
  assumes "well_formed s"
  shows "listener_list (removeListener k' l s) k =
     (if k = k' then filter (\<lambda>x. x \<noteq> l) (listener_list s k) else listener_list s k)"
proof -
  from assms(1) have "\<And>b. events s k = Some b \<Longrightarrow> b \<noteq> nxt s" by (auto simp: well_formed_def)
  then show ?thesis
    by (auto simp: removeListener_eq listener_list_eq split: option.splits)
qed

lemma length_filter_neq: "length (filter (\<lambda>x. x \<noteq> l) xs) + count (mset xs) l = length xs"
  by (induction xs) auto

lemma count_mset_count_list: "count (mset xs) l = count_list xs l"
  by (induction xs) auto

lemma apply_ops_tally:
  "well_formed s \<Longrightarrow> apply_ops ops s = Inr s' \<Longrightarrow> tally (ledger k ops) (mset (listener_list s k)) = (a, r)
     \<Longrightarrow> length (listener_list s' k) + r = length (listener_list s k) + a"
proof (induction ops arbitrary: s a r)
  case Nil
  then show ?case by simp
next
  case (Cons op ops)
  show ?case
  proof (cases op)
    case (Register k' ls)
    with Cons.prems(2) obtain s1 where add: "addListener k' ls s = Inr s1"
      and rest: "apply_ops ops s1 = Inr s'"
      by (auto split: sum.splits)
    from addListener_frame [OF add] Cons.prems(1) have w1: "well_formed s1" by (simp add: frame_def)
    note l1 = listener_list_addListener [OF Cons.prems(1) add, of k]
    show ?thesis
    proof (cases "k' = k")
      case True
      with Cons.prems(3) Register obtain a' where
        t: "tally (ledger k ops) (mset (listener_list s k) + mset ls) = (a', r)" and a: "a = a' + length ls"
        by (auto split: prod.splits)
      from t l1 True have "tally (ledger k ops) (mset (listener_list s1 k)) = (a', r)"
        by (simp add: union_commute)
      from Cons.IH [OF w1 rest this] l1 True a show ?thesis by simp
    next
      case False
      with Cons.prems(3) Register l1 have "tally (ledger k ops) (mset (listener_list s1 k)) = (a, r)"
        by simp
      from Cons.IH [OF w1 rest this] l1 False show ?thesis by simp
    qed
  next
    case (Unregister k' l)
    let ?s1 = "removeListener k' l s"
    from Unregister Cons.prems(2) have rest: "apply_ops ops ?s1 = Inr s'" by simp
    from removeListener_frame [of s k' l] Cons.prems(1) have w1: "well_formed ?s1" by (simp add: frame_def)
    note l1 = listener_list_removeListener [OF Cons.prems(1), of k' l k]
    show ?thesis
    proof (cases "k' = k")
      case True
      with Cons.prems(3) Unregister obtain r' where
        t: "tally (ledger k ops) (filter_mset (\<lambda>x. x \<noteq> l) (mset (listener_list s k))) = (a, r')"
        and r: "r = r' + count (mset (listener_list s k)) l"
        by (auto split: prod.splits)
      from t l1 True have "tally (ledger k ops) (mset (listener_list ?s1 k)) = (a, r')" by simp
      from Cons.IH [OF w1 rest this] l1 True r length_filter_neq [of l "listener_list s k"]
      show ?thesis by simp
    next
      case False
      with Cons.prems(3) Unregister l1 have "tally (ledger k ops) (mset (listener_list ?s1 k)) = (a, r)"
        by simp
      from Cons.IH [OF w1 rest this] l1 False show ?thesis by simp
    qed
  qed
qed

lemma mono_list_addListener: "mono_addListener ls s = Inr s' \<Longrightarrow> mono_list s' = mono_list s @ ls"
  by (auto simp: mono_addListener_def mono_list_def split: if_splits)

lemma mono_list_removeListener: "mono_list (mono_removeListener l s) = filter (\<lambda>x. x \<noteq> l) (mono_list s)"
  by (simp add: mono_removeListener_eq mono_list_def)

lemma mono_apply_ops_tally:
  "mono_apply_ops ops s = Inr s' \<Longrightarrow> tally (mono_ledger ops) (mset (mono_list s)) = (a, r)
     \<Longrightarrow> length (mono_list s') + r = length (mono_list s) + a"
proof (induction ops arbitrary: s a r)
  case Nil
  then show ?case by simp
next
  case (Cons op ops)
  show ?case
  proof (cases op)
    case (MonoRegister ls)
    with Cons.prems(1) obtain s1 where add: "mono_addListener ls s = Inr s1"
      and rest: "mono_apply_ops ops s1 = Inr s'"
      by (auto split: sum.splits)
    note l1 = mono_list_addListener [OF add]
    from Cons.prems(2) MonoRegister obtain a' where
      t: "tally (mono_ledger ops) (mset (mono_list s) + mset ls) = (a', r)" and a: "a = a' + length ls"
      by (auto split: prod.splits)
    from t l1 have "tally (mono_ledger ops) (mset (mono_list s1)) = (a', r)" by simp
    from Cons.IH [OF rest this] l1 a show ?thesis by simp
  next
    case (MonoUnregister l)
    let ?s1 = "mono_removeListener l s"
    from MonoUnregister Cons.prems(1) have rest: "mono_apply_ops ops ?s1 = Inr s'" by simp
    note l1 = mono_list_removeListener [of l s]
    from Cons.prems(2) MonoUnregister obtain r' where
      t: "tally (mono_ledger ops) (filter_mset (\<lambda>x. x \<noteq> l) (mset (mono_list s))) = (a, r')"
      and r: "r = r' + count (mset (mono_list s)) l"
      by (auto split: prod.splits)
    from t l1 have "tally (mono_ledger ops) (mset (mono_list ?s1)) = (a, r')" by simp
    from Cons.IH [OF rest this] l1 r length_filter_neq [of l "mono_list s"]
    show ?thesis by simp
  qed
qed


text \<open>
  C5. After a run of \<open>addListener\<close> and \<open>removeListener\<close> calls without exception on
  a new emitter, with any limits, the count of an event is the number of listeners added
  for it minus the number removed, as the bookkeeping \<open>tally\<close> counts them: a removal
  of \<open>l\<close> counts every occurrence of \<open>l\<close> present. One \<open>removeListener\<close> lowers
  the count by the number of occurrences of the listener, which is zero when it is
  absent; the call has no exception to throw. Both emitters.
\<close>

theorem count_is_added_minus_removed:
  "(apply_ops ops ((new_emitter :: ('k, 'a) emitter)\<lparr>maxListeners := lim\<rparr>) = Inr s \<longrightarrow>
      (case tally (ledger k ops) {#} of (a, r) \<Rightarrow> r \<le> a \<and> listenerCount s k = a - r)) \<and>
   (mono_apply_ops mops ((new_mono :: 'b mono)\<lparr>maxListenersCount := mlim\<rparr>) = Inr m \<longrightarrow>
      (case tally (mono_ledger mops) {#} of (a, r) \<Rightarrow> r \<le> a \<and> listenersCount m = a - r)) \<and>
   listenerCount (removeListener k l s0) k = listenerCount s0 k - count_list (listener_list s0 k) l \<and>
   listenersCount (mono_removeListener ml m0) = listenersCount m0 - count_list (mono_list m0) ml"
proof (intro conjI impI)
  let ?s = "(new_emitter :: ('k, 'a) emitter)\<lparr>maxListeners := lim\<rparr>"
  assume run: "apply_ops ops ?s = Inr s"
  obtain a r where t: "tally (ledger k ops) {#} = (a, r)" by force
  have "well_formed ?s" "listener_list ?s k = []"
    by (simp_all add: well_formed_def new_emitter_def listener_list_eq)
  with apply_ops_tally [OF _ run, of k a r] t have "length (listener_list s k) + r = a" by simp
  with t show "case tally (ledger k ops) {#} of (a, r) \<Rightarrow> r \<le> a \<and> listenerCount s k = a - r"
    by (auto simp: listenerCount_eq)
next
  let ?m = "(new_mono :: 'b mono)\<lparr>maxListenersCount := mlim\<rparr>"
  assume run: "mono_apply_ops mops ?m = Inr m"
  obtain a r where t: "tally (mono_ledger mops) {#} = (a, r)" by force
  have "mono_list ?m = []" by (simp add: new_mono_def mono_list_def)
  with mono_apply_ops_tally [OF run, of a r] t have "length (mono_list m) + r = a" by simp
  with t show "case tally (mono_ledger mops) {#} of (a, r) \<Rightarrow> r \<le> a \<and> listenersCount m = a - r"
    by (auto simp: listenersCount_eq)
next
  have "listener_list (removeListener k l s0) k = filter (\<lambda>x. x \<noteq> l) (listener_list s0 k)"
    by (simp add: removeListener_eq listener_list_eq)
  with length_filter_neq [of l "listener_list s0 k"]
  show "listenerCount (removeListener k l s0) k = listenerCount s0 k - count_list (listener_list s0 k) l"
    by (simp add: listenerCount_eq count_mset_count_list)
next
  from length_filter_neq [of ml "mono_list m0"]
  show "listenersCount (mono_removeListener ml m0) = listenersCount m0 - count_list (mono_list m0) ml"
    by (simp add: listenersCount_eq mono_list_removeListener count_mset_count_list)
qed

text \<open>C5 on an example: three listeners added, two of them equal and removed by one
  call, a removal of an absent listener, and a registration for another event.\<close>

theorem count_is_added_minus_removed_witness:
  "(\<exists>s. apply_ops [Register ''x'' [Fn 1, Fn 2, Fn 1], Unregister ''x'' (Fn 1), Unregister ''x'' (Fn 7),
                    Register ''y'' [Fn 3]]
           ((new_emitter :: (string, nat) emitter)\<lparr>maxListeners := [''x'' \<mapsto> 5]\<rparr>) = Inr s \<and>
         listenerCount s ''x'' = 1) \<and>
   tally (ledger ''x'' [Register ''x'' [Fn 1, Fn 2, Fn 1], Unregister ''x'' (Fn 1), Unregister ''x'' (Fn 7),
                        Register ''y'' [Fn 3]]) {#} = (3, 2) \<and>
   (\<exists>m. mono_apply_ops [MonoRegister [MonoFn 1, MonoFn 2, MonoFn 1], MonoUnregister (MonoFn 1),
                         MonoUnregister (MonoFn 7)]
           ((new_mono :: nat mono)\<lparr>maxListenersCount := Some 5\<rparr>) = Inr m \<and>
         listenersCount m = 1) \<and>
   tally (mono_ledger [MonoRegister [MonoFn 1, MonoFn 2, MonoFn 1], MonoUnregister (MonoFn 1),
                       MonoUnregister (MonoFn 7)]) {#} = (3, 2)"
proof -
  let ?ops = "[Register ''x'' [Fn 1, Fn 2, Fn 1], Unregister ''x'' (Fn 1), Unregister ''x'' (Fn 7),
               Register ''y'' [Fn 3]]"
  let ?mops = "[MonoRegister [MonoFn 1, MonoFn 2, MonoFn 1], MonoUnregister (MonoFn 1),
                MonoUnregister (MonoFn 7)]"
  obtain s where a: "apply_ops ?ops ((new_emitter :: (string, nat) emitter)\<lparr>maxListeners := [''x'' \<mapsto> 5]\<rparr>) = Inr s"
    by (simp add: addListener_def removeListener_def new_emitter_def truthy_def js_gt_def maxCount_def
        listenerCount_def getListeners_def alloc_def)
  obtain m where b: "mono_apply_ops ?mops ((new_mono :: nat mono)\<lparr>maxListenersCount := Some 5\<rparr>) = Inr m"
    by (simp add: mono_addListener_def mono_removeListener_def new_mono_def truthy_def js_lt_def
        listenersCount_def mono_alloc_def)
  have t: "tally (ledger ''x'' ?ops) {#} = (3, 2)" "tally (mono_ledger ?mops) {#} = (3, 2)"
    by simp_all
  from a b t count_is_added_minus_removed [of ?ops "[''x'' \<mapsto> 5]" s "''x''" ?mops "Some 5" m "Fn 1" s "MonoFn 1" m]
  have "listenerCount s ''x'' = 1" "listenersCount m = 1" by simp_all
  with a b t show ?thesis by blast
qed

end
